theory Spec2Isabelle
  imports Complex_Main "HOL-Library.Multiset"
begin

section \<open>Task (src/task.py)\<close>

text \<open>
  The dataclass \<^verbatim>\<open>Task\<close>. Python's unbounded \<^verbatim>\<open>int\<close> is \<^typ>\<open>int\<close>; the
  \<^verbatim>\<open>float\<close> fields are modelled by exact reals, so rounding, infinities and NaN are
  outside the model.
\<close>

record task =
  task_id :: string
  priority :: int
  arrival_time :: real
  deadline :: "real option"
  execution_time :: real
  description :: string

text \<open>The values a \<^verbatim>\<open>Task\<close> can be compared with: another task or something else.\<close>

datatype pyobj = PTask task | PInt int | PFloat real | PStr string | PNone

text \<open>\<^verbatim>\<open>Task.__eq__\<close>: false on a non-task, otherwise equality of the priorities.\<close>

fun task_eq :: "task \<Rightarrow> pyobj \<Rightarrow> bool" where
  "task_eq self (PTask other) = (priority self = priority other)"
| "task_eq self (PInt n) = False"
| "task_eq self (PFloat x) = False"
| "task_eq self (PStr s) = False"
| "task_eq self PNone = False"

definition update_priority :: "task \<Rightarrow> int \<Rightarrow> task" where
  "update_priority self new_priority = self\<lparr>priority := new_priority\<rparr>"

section \<open>PriorityQueue (src/priority_queue.py)\<close>

text \<open>
  The attributes \<^verbatim>\<open>heap\<close> and \<^verbatim>\<open>is_max_heap\<close> of the class. The attribute
  \<^verbatim>\<open>key\<close> is the argument \<open>k\<close> of every operation below: it is the key function
  as it reads the items at the time of the call (the priority of a task object can change
  between calls).
\<close>

record 'a priority_queue =
  heap :: "'a list"
  is_max_heap :: bool

datatype error = IndexError

definition init_pq :: "bool \<Rightarrow> 'a priority_queue" where
  "init_pq mx = \<lparr>heap = [], is_max_heap = mx\<rparr>"

text \<open>\<^verbatim>\<open>_compare\<close>: true if \<open>a\<close> should be above \<open>b\<close> in the heap.\<close>

definition pq_compare :: "('a \<Rightarrow> int) \<Rightarrow> bool \<Rightarrow> 'a \<Rightarrow> 'a \<Rightarrow> bool" where
  "pq_compare k mx a b =
     (let val_a = k a; val_b = k b in if mx then val_a > val_b else val_a < val_b)"

text \<open>
  \<^verbatim>\<open>_heapify_up\<close> and \<^verbatim>\<open>_heapify_down\<close> on the heap list. Both are private and
  every call site passes an index below the length of the list, so no read is out of range.
\<close>

function heapify_up :: "('a \<Rightarrow> int) \<Rightarrow> bool \<Rightarrow> 'a list \<Rightarrow> nat \<Rightarrow> 'a list" where
  "heapify_up k mx h index =
     (if index > 0 then
        (let parent = (index - 1) div 2 in
         if pq_compare k mx (h ! index) (h ! parent)
         then heapify_up k mx (h[index := h ! parent, parent := h ! index]) parent
         else h)
      else h)"
  by pat_completeness auto
termination
  by (relation "measure (\<lambda>(k, mx, h, index). index)") auto

text \<open>
  The two comparisons at the head of the loop body of \<^verbatim>\<open>_heapify_down\<close>: the value of
  \<^verbatim>\<open>largest_or_smallest\<close> after them. The left child is compared with the node, the
  right child with the winner of that.
\<close>

definition down_choice :: "('a \<Rightarrow> int) \<Rightarrow> bool \<Rightarrow> 'a list \<Rightarrow> nat \<Rightarrow> nat" where
  "down_choice k mx h index =
     (let n = length h;
          left = 2 * index + 1;
          right = 2 * index + 2;
          c1 = (if left < n \<and> pq_compare k mx (h ! left) (h ! index) then left else index);
          c2 = (if right < n \<and> pq_compare k mx (h ! right) (h ! c1) then right else c1)
      in c2)"

function heapify_down :: "('a \<Rightarrow> int) \<Rightarrow> bool \<Rightarrow> 'a list \<Rightarrow> nat \<Rightarrow> 'a list" where
  "heapify_down k mx h index =
     (let largest_or_smallest = down_choice k mx h index in
      if largest_or_smallest = index then h
      else heapify_down k mx
             (h[index := h ! largest_or_smallest, largest_or_smallest := h ! index])
             largest_or_smallest)"
  by pat_completeness auto
termination
  by (relation "measure (\<lambda>(k, mx, h, index). length h - index)")
     (auto simp: down_choice_def Let_def split: if_splits)

definition is_empty :: "'a priority_queue \<Rightarrow> bool" where
  "is_empty pq = (length (heap pq) = 0)"

definition size_pq :: "'a priority_queue \<Rightarrow> nat" where
  "size_pq pq = length (heap pq)"

definition insert_pq :: "('a \<Rightarrow> int) \<Rightarrow> 'a priority_queue \<Rightarrow> 'a \<Rightarrow> 'a priority_queue" where
  "insert_pq k pq item =
     (let h = heap pq @ [item] in
      pq\<lparr>heap := heapify_up k (is_max_heap pq) h (length h - 1)\<rparr>)"

text \<open>
  An operation that can raise returns its outcome together with the queue it leaves
  behind; \<open>Inl\<close> is the exception.
\<close>

definition extract_max ::
    "('a \<Rightarrow> int) \<Rightarrow> 'a priority_queue \<Rightarrow> (error + 'a) \<times> 'a priority_queue" where
  "extract_max k pq =
     (if is_empty pq then (Inl IndexError, pq)
      else if length (heap pq) = 1
      then (Inr (last (heap pq)), pq\<lparr>heap := butlast (heap pq)\<rparr>)
      else
        (let root = heap pq ! 0;
             h = (butlast (heap pq))[0 := last (heap pq)]
         in (Inr root, pq\<lparr>heap := heapify_down k (is_max_heap pq) h 0\<rparr>)))"

definition extract_min ::
    "('a \<Rightarrow> int) \<Rightarrow> 'a priority_queue \<Rightarrow> (error + 'a) \<times> 'a priority_queue" where
  "extract_min k pq =
     (if is_empty pq then (Inl IndexError, pq)
      else if length (heap pq) = 1
      then (Inr (last (heap pq)), pq\<lparr>heap := butlast (heap pq)\<rparr>)
      else
        (let root = heap pq ! 0;
             h = (butlast (heap pq))[0 := last (heap pq)]
         in (Inr root, pq\<lparr>heap := heapify_down k (is_max_heap pq) h 0\<rparr>)))"

text \<open>\<^verbatim>\<open>peek\<close>: the root, or Python's \<^verbatim>\<open>None\<close> on an empty queue; it raises nothing.\<close>

definition peek :: "'a priority_queue \<Rightarrow> (error + 'a option) \<times> 'a priority_queue" where
  "peek pq = (if is_empty pq then (Inr None, pq) else (Inr (Some (heap pq ! 0)), pq))"

section \<open>The heap invariant, sift-up and sift-down\<close>

declare heapify_up.simps [simp del]
declare heapify_down.simps [simp del]

text \<open>
  The rank of an item: its key in a max-heap, the negated key in a min-heap, so that in
  both modes \<open>pq_compare k mx a b\<close> says that \<open>a\<close> has the greater rank.
\<close>

definition rk :: "('a \<Rightarrow> int) \<Rightarrow> bool \<Rightarrow> 'a \<Rightarrow> int" where
  "rk k mx x = (if mx then k x else - k x)"

text \<open>
  The binary-heap invariant of the heap list: no element at a non-root index \<open>i\<close> should be
  above its parent at index \<open>(i - 1) div 2\<close>, that is, in a max-heap the parent's key is at
  least the child's and in a min-heap at most the child's.
\<close>

definition heap_inv :: "('a \<Rightarrow> int) \<Rightarrow> bool \<Rightarrow> 'a list \<Rightarrow> bool" where
  "heap_inv k mx h = (\<forall>i\<in>{1..<length h}. \<not> pq_compare k mx (h ! i) (h ! ((i - 1) div 2)))"

lemma pq_compare_rk: "pq_compare k mx a b \<longleftrightarrow> rk k mx b < rk k mx a"
  by (simp add: pq_compare_def rk_def)

lemma heap_inv_rk:
  "heap_inv k mx h \<longleftrightarrow> (\<forall>i. 0 < i \<and> i < length h \<longrightarrow> rk k mx (h ! i) \<le> rk k mx (h ! ((i - 1) div 2)))"
  by (auto simp: heap_inv_def pq_compare_rk not_less)

lemma parent_eq_iff: "0 < j \<Longrightarrow> (j - 1) div 2 = i \<longleftrightarrow> j = 2 * i + 1 \<or> j = 2 * i + 2" for i j :: nat
  by presburger

lemma parent_less: "0 < j \<Longrightarrow> (j - 1) div 2 < j" for j :: nat
  by presburger

text \<open>
  The loop invariant of \<^verbatim>\<open>_heapify_up\<close> at index \<open>i\<close>, in terms of ranks \<open>r\<close>: the
  invariant holds at every index but \<open>i\<close>, and the children of \<open>i\<close> are in order with the
  parent of \<open>i\<close>.
\<close>

definition up_inv :: "('a \<Rightarrow> int) \<Rightarrow> 'a list \<Rightarrow> nat \<Rightarrow> bool" where
  "up_inv r h i \<longleftrightarrow>
     (\<forall>j. 0 < j \<and> j < length h \<and> j \<noteq> i \<longrightarrow> r (h ! j) \<le> r (h ! ((j - 1) div 2))) \<and>
     (\<forall>j. 0 < j \<and> j < length h \<and> (j - 1) div 2 = i \<and> 0 < i \<longrightarrow> r (h ! j) \<le> r (h ! ((i - 1) div 2)))"

lemma length_heapify_up: "length (heapify_up k mx h i) = length h"
  by (induction k mx h i rule: heapify_up.induct) (subst heapify_up.simps, simp add: Let_def)

lemma up_inv_swap:
  assumes i: "0 < i" "i < length h" and inv: "up_inv r h i"
    and gt: "r (h ! ((i - 1) div 2)) < r (h ! i)"
  shows "up_inv r (h[i := h ! ((i - 1) div 2), (i - 1) div 2 := h ! i]) ((i - 1) div 2)"
proof -
  define p where "p = (i - 1) div 2"
  define h' where "h' = h[i := h ! p, p := h ! i]"
  have pi: "p < i" using i by (simp add: p_def parent_less)
  have len: "length h' = length h" by (simp add: h'_def)
  have hp: "h' ! p = h ! i" using pi i by (simp add: h'_def)
  have hi: "h' ! i = h ! p" using pi i by (simp add: h'_def)
  have ho: "\<And>j. j \<noteq> i \<Longrightarrow> j \<noteq> p \<Longrightarrow> h' ! j = h ! j" by (simp add: h'_def)
  from inv have c1: "\<And>j. 0 < j \<Longrightarrow> j < length h \<Longrightarrow> j \<noteq> i \<Longrightarrow> r (h ! j) \<le> r (h ! ((j - 1) div 2))"
    and c2: "\<And>j. 0 < j \<Longrightarrow> j < length h \<Longrightarrow> (j - 1) div 2 = i \<Longrightarrow> r (h ! j) \<le> r (h ! p)"
    using i by (auto simp: up_inv_def p_def)
  have A: "r (h' ! j) \<le> r (h' ! ((j - 1) div 2))" if j: "0 < j" "j < length h'" "j \<noteq> p" for j
  proof (cases "j = i")
    case True
    then show ?thesis using hp hi gt by (simp add: p_def)
  next
    case ji: False
    have hj: "h' ! j = h ! j" using ji j ho by simp
    consider "(j - 1) div 2 = i" | "(j - 1) div 2 = p" | "(j - 1) div 2 \<noteq> i" "(j - 1) div 2 \<noteq> p" by blast
    then show ?thesis
    proof cases
      case 1
      then show ?thesis using hj hi c2[of j] j len by simp
    next
      case 2
      have "r (h ! j) \<le> r (h ! p)" using c1[of j] j len ji 2 by simp
      then show ?thesis using 2 hj hp gt by (simp add: p_def)
    next
      case 3
      then show ?thesis using hj ho[of "(j - 1) div 2"] c1[of j] j len ji by simp
    qed
  qed
  have B: "r (h' ! j) \<le> r (h' ! ((p - 1) div 2))"
    if j: "0 < j" "j < length h'" "(j - 1) div 2 = p" "0 < p" for j
  proof -
    have pp: "(p - 1) div 2 < p" using j by (simp add: parent_less)
    have hpp: "h' ! ((p - 1) div 2) = h ! ((p - 1) div 2)" using pp pi ho by simp
    have ppb: "r (h ! p) \<le> r (h ! ((p - 1) div 2))" using c1[of p] j pi i by simp
    have jp: "j \<noteq> p" using j parent_less[of j] by auto
    show ?thesis
    proof (cases "j = i")
      case True
      then show ?thesis using hi hpp ppb by simp
    next
      case False
      then have "r (h ! j) \<le> r (h ! p)" using c1[of j] j len by simp
      then show ?thesis using False jp ho[of j] hpp ppb by simp
    qed
  qed
  show ?thesis unfolding up_inv_def using A B by (fold p_def, fold h'_def) blast
qed

lemma heapify_up_inv:
  "i < length h \<Longrightarrow> up_inv (rk k mx) h i \<Longrightarrow> heap_inv k mx (heapify_up k mx h i)"
proof (induction k mx h i rule: heapify_up.induct)
  case (1 k mx h i)
  show ?case
  proof (cases "0 < i")
    case False
    then show ?thesis using "1.prems" by (subst heapify_up.simps) (auto simp: heap_inv_rk up_inv_def)
  next
    case pos: True
    show ?thesis
    proof (cases "pq_compare k mx (h ! i) (h ! ((i - 1) div 2))")
      case False
      have "heap_inv k mx h"
        unfolding heap_inv_rk
      proof (intro allI impI)
        fix j assume "0 < j \<and> j < length h"
        then show "rk k mx (h ! j) \<le> rk k mx (h ! ((j - 1) div 2))"
          using False "1.prems" by (cases "j = i") (auto simp: up_inv_def pq_compare_rk)
      qed
      then show ?thesis using False pos by (subst heapify_up.simps) simp
    next
      case True
      have "up_inv (rk k mx) (h[i := h ! ((i - 1) div 2), (i - 1) div 2 := h ! i]) ((i - 1) div 2)"
        using up_inv_swap[OF pos] "1.prems" True by (simp add: pq_compare_rk)
      moreover have "(i - 1) div 2 < length (h[i := h ! ((i - 1) div 2), (i - 1) div 2 := h ! i])"
        using parent_less[OF pos] "1.prems" by simp
      ultimately show ?thesis using "1.IH"[OF pos refl True] True pos
        by (subst heapify_up.simps) (simp add: Let_def)
    qed
  qed
qed

lemma down_choice_cases:
  fixes h :: "'a list"
  defines "n \<equiv> length h"
  assumes c: "c = down_choice k mx h i" and r: "r = rk k mx"
  obtains
    (stay) "c = i" "2 * i + 1 < n \<Longrightarrow> r (h ! (2 * i + 1)) \<le> r (h ! i)"
           "2 * i + 2 < n \<Longrightarrow> r (h ! (2 * i + 2)) \<le> r (h ! i)"
  | (left) "c = 2 * i + 1" "c < n" "r (h ! i) < r (h ! c)"
           "2 * i + 2 < n \<Longrightarrow> r (h ! (2 * i + 2)) \<le> r (h ! c)"
  | (right) "c = 2 * i + 2" "c < n" "r (h ! i) < r (h ! c)"
           "r (h ! (2 * i + 1)) \<le> r (h ! c)"
  using c r unfolding n_def down_choice_def Let_def pq_compare_rk
  by (auto split: if_splits simp: not_less)

text \<open>
  The loop invariant of \<^verbatim>\<open>_heapify_down\<close> at index \<open>i\<close>: the invariant holds at every
  index whose parent is not \<open>i\<close>, and the children of \<open>i\<close> are in order with the parent of
  \<open>i\<close>.
\<close>

definition down_inv :: "('a \<Rightarrow> int) \<Rightarrow> 'a list \<Rightarrow> nat \<Rightarrow> bool" where
  "down_inv r h i \<longleftrightarrow>
     (\<forall>j. 0 < j \<and> j < length h \<and> (j - 1) div 2 \<noteq> i \<longrightarrow> r (h ! j) \<le> r (h ! ((j - 1) div 2))) \<and>
     (\<forall>j. 0 < j \<and> j < length h \<and> (j - 1) div 2 = i \<and> 0 < i \<longrightarrow> r (h ! j) \<le> r (h ! ((i - 1) div 2)))"

lemma length_heapify_down: "length (heapify_down k mx h i) = length h"
  by (induction k mx h i rule: heapify_down.induct) (subst heapify_down.simps, simp add: Let_def)

lemma down_inv_swap:
  assumes c: "(c - 1) div 2 = i" "0 < c" "c < length h" and inv: "down_inv r h i"
    and gt: "r (h ! i) < r (h ! c)"
    and sib: "\<And>j. 0 < j \<Longrightarrow> j < length h \<Longrightarrow> (j - 1) div 2 = i \<Longrightarrow> r (h ! j) \<le> r (h ! c)"
  shows "down_inv r (h[i := h ! c, c := h ! i]) c"
proof -
  define h' where "h' = h[i := h ! c, c := h ! i]"
  have ic: "i < c" using c parent_less[of c] by simp
  have len: "length h' = length h" by (simp add: h'_def)
  have hc: "h' ! c = h ! i" using ic c by (simp add: h'_def)
  have hi: "h' ! i = h ! c" using ic c by (simp add: h'_def)
  have ho: "\<And>j. j \<noteq> i \<Longrightarrow> j \<noteq> c \<Longrightarrow> h' ! j = h ! j" by (simp add: h'_def)
  from inv have c1: "\<And>j. 0 < j \<Longrightarrow> j < length h \<Longrightarrow> (j - 1) div 2 \<noteq> i \<Longrightarrow> r (h ! j) \<le> r (h ! ((j - 1) div 2))"
    and c2: "\<And>j. 0 < j \<Longrightarrow> j < length h \<Longrightarrow> (j - 1) div 2 = i \<Longrightarrow> 0 < i \<Longrightarrow> r (h ! j) \<le> r (h ! ((i - 1) div 2))"
    by (auto simp: down_inv_def)
  have A: "r (h' ! j) \<le> r (h' ! ((j - 1) div 2))"
    if j: "0 < j" "j < length h'" "(j - 1) div 2 \<noteq> c" for j
  proof (cases "(j - 1) div 2 = i")
    case True
    then have ji: "j \<noteq> i" using parent_less[of j] j by auto
    show ?thesis
    proof (cases "j = c")
      case True
      then show ?thesis using hc hi gt c by simp
    next
      case False
      then show ?thesis using ho[of j] ji hi sib[of j] j len True by simp
    qed
  next
    case pj: False
    then have jc: "j \<noteq> c" using c by auto
    have hpar: "h' ! ((j - 1) div 2) = h ! ((j - 1) div 2)" using ho pj j by simp
    show ?thesis
    proof (cases "j = i")
      case True
      have "r (h ! c) \<le> r (h ! ((i - 1) div 2))" using c2[of c] c True j by simp
      then show ?thesis using True hi hpar by simp
    next
      case False
      then show ?thesis using ho[of j] jc hpar c1[of j] j len pj by simp
    qed
  qed
  have B: "r (h' ! j) \<le> r (h' ! ((c - 1) div 2))"
    if j: "0 < j" "j < length h'" "(j - 1) div 2 = c" for j
  proof -
    have cj: "c < j" using parent_less[of j] j by simp
    have "r (h ! j) \<le> r (h ! c)" using c1[of j] j len ic by simp
    then show ?thesis using ho[of j] cj ic hi c by simp
  qed
  show ?thesis unfolding down_inv_def using A B by (fold h'_def) blast
qed

lemma heapify_down_inv:
  "i < length h \<Longrightarrow> down_inv (rk k mx) h i \<Longrightarrow> heap_inv k mx (heapify_down k mx h i)"
proof (induction k mx h i rule: heapify_down.induct)
  case (1 k mx h i)
  define c where "c = down_choice k mx h i"
  define r where "r = rk k mx"
  from "1.prems" have c1: "\<And>j. 0 < j \<Longrightarrow> j < length h \<Longrightarrow> (j - 1) div 2 \<noteq> i \<Longrightarrow> r (h ! j) \<le> r (h ! ((j - 1) div 2))"
    by (auto simp: down_inv_def r_def)
  from c_def r_def show ?case
  proof (cases rule: down_choice_cases)
    case stay
    have "heap_inv k mx h"
      unfolding heap_inv_rk
    proof (intro allI impI)
      fix j assume j: "0 < j \<and> j < length h"
      show "rk k mx (h ! j) \<le> rk k mx (h ! ((j - 1) div 2))"
      proof (cases "(j - 1) div 2 = i")
        case True
        then have "j = 2 * i + 1 \<or> j = 2 * i + 2" using j parent_eq_iff by blast
        then show ?thesis using stay j True by (auto simp: r_def)
      next
        case False
        then show ?thesis using c1[of j] j by (simp add: r_def)
      qed
    qed
    then show ?thesis using stay(1) by (subst heapify_down.simps) (simp add: c_def Let_def)
  next
    case left
    have sib: "r (h ! j) \<le> r (h ! c)" if "0 < j" "j < length h" "(j - 1) div 2 = i" for j
    proof -
      have "j = 2 * i + 1 \<or> j = 2 * i + 2" using that parent_eq_iff by blast
      then show ?thesis using left that by auto
    qed
    have par: "(c - 1) div 2 = i" "0 < c" using left by auto
    have "down_inv r (h[i := h ! c, c := h ! i]) c"
      using down_inv_swap[OF par left(2) _ left(3) sib] "1.prems" by (simp add: r_def)
    moreover have "c \<noteq> i" using left by simp
    ultimately show ?thesis
      using "1.IH"[OF c_def[symmetric, THEN sym]] left(2)
      by (subst heapify_down.simps) (simp add: c_def Let_def r_def)
  next
    case right
    have sib: "r (h ! j) \<le> r (h ! c)" if "0 < j" "j < length h" "(j - 1) div 2 = i" for j
    proof -
      have "j = 2 * i + 1 \<or> j = 2 * i + 2" using that parent_eq_iff by blast
      then show ?thesis using right that by auto
    qed
    have par: "(c - 1) div 2 = i" "0 < c" using right by auto
    have "down_inv r (h[i := h ! c, c := h ! i]) c"
      using down_inv_swap[OF par right(2) _ right(3) sib] "1.prems" by (simp add: r_def)
    moreover have "c \<noteq> i" using right by simp
    ultimately show ?thesis
      using "1.IH"[OF c_def[symmetric, THEN sym]] right(2)
      by (subst heapify_down.simps) (simp add: c_def Let_def r_def)
  qed
qed


lemma mset_heapify_up: "i < length h \<Longrightarrow> mset (heapify_up k mx h i) = mset h"
proof (induction k mx h i rule: heapify_up.induct)
  case (1 k mx h i)
  show ?case
  proof (cases "0 < i \<and> pq_compare k mx (h ! i) (h ! ((i - 1) div 2))")
    case False
    then show ?thesis by (subst heapify_up.simps) (auto simp: Let_def)
  next
    case True
    then have p: "(i - 1) div 2 < length h" using parent_less[of i] "1.prems" by simp
    have "mset (h[i := h ! ((i - 1) div 2), (i - 1) div 2 := h ! i]) = mset h"
      using mset_swap[OF p "1.prems"] .
    then show ?thesis using True "1.IH"[OF _ refl] p
      by (subst heapify_up.simps) (simp add: Let_def)
  qed
qed

lemma down_choice_range:
  "down_choice k mx h i = i \<or> (i < down_choice k mx h i \<and> down_choice k mx h i < length h)"
  by (auto simp: down_choice_def Let_def)

lemma mset_heapify_down: "mset (heapify_down k mx h i) = mset h"
proof (induction k mx h i rule: heapify_down.induct)
  case (1 k mx h i)
  define c where "c = down_choice k mx h i"
  show ?case
  proof (cases "c = i")
    case True
    then show ?thesis by (subst heapify_down.simps) (simp add: c_def Let_def)
  next
    case False
    then have r: "i < c" "c < length h" using down_choice_range[of k mx h i] by (auto simp: c_def)
    then have "mset (h[i := h ! c, c := h ! i]) = mset h"
      using mset_swap[of c h i] by simp
    then show ?thesis using False "1.IH"[OF c_def[symmetric, THEN sym]]
      by (subst heapify_down.simps) (simp add: c_def Let_def)
  qed
qed

lemma heap_inv_append:
  assumes "heap_inv k mx h"
  shows "up_inv (rk k mx) (h @ [x]) (length h)"
  unfolding up_inv_def
proof (intro conjI allI impI)
  fix j assume j: "0 < j \<and> j < length (h @ [x]) \<and> j \<noteq> length h"
  then have jl: "j < length h" by simp
  then have "(j - 1) div 2 < length h" using parent_less[of j] j by simp
  then show "rk k mx ((h @ [x]) ! j) \<le> rk k mx ((h @ [x]) ! ((j - 1) div 2))"
    using assms j jl by (simp add: heap_inv_rk nth_append)
next
  fix j assume j: "0 < j \<and> j < length (h @ [x]) \<and> (j - 1) div 2 = length h \<and> 0 < length h"
  then have False using parent_less[of j] by simp
  then show "rk k mx ((h @ [x]) ! j) \<le> rk k mx ((h @ [x]) ! ((length h - 1) div 2))" ..
qed

lemma heap_inv_heapify_append:
  "heap_inv k mx h \<Longrightarrow> heap_inv k mx (heapify_up k mx (h @ [x]) (length h))"
  using heapify_up_inv[of "length h" "h @ [x]" k mx] heap_inv_append[of k mx h x] by simp

lemma heap_inv_replace_root:
  assumes "heap_inv k mx h" and "2 \<le> length h"
  shows "down_inv (rk k mx) ((butlast h)[0 := last h]) 0"
  unfolding down_inv_def
proof (intro conjI allI impI)
  fix j assume j: "0 < j \<and> j < length ((butlast h)[0 := last h]) \<and> (j - 1) div 2 \<noteq> 0"
  then have jl: "j < length h - 1" by simp
  have pl: "(j - 1) div 2 < length h - 1" using parent_less[of j] j jl by simp
  have "rk k mx (h ! j) \<le> rk k mx (h ! ((j - 1) div 2))"
    using assms j jl by (auto simp: heap_inv_rk)
  then show "rk k mx ((butlast h)[0 := last h] ! j) \<le> rk k mx ((butlast h)[0 := last h] ! ((j - 1) div 2))"
    using j jl pl by (simp add: nth_butlast)
qed simp

lemma mset_replace_root:
  assumes "2 \<le> length h"
  shows "add_mset (h ! 0) (mset ((butlast h)[0 := last h])) = mset h"
proof -
  from assms obtain x xs where h: "h = x # xs" and xs: "xs \<noteq> []"
    by (cases h) (auto simp: Suc_le_eq)
  have "mset (butlast xs) + {#last xs#} = mset xs"
    using xs append_butlast_last_id[of xs] by (metis mset_append mset_single_iff_right mset.simps(2) mset.simps(1))
  then show ?thesis using h xs by simp
qed

lemma heap_inv_root_top:
  assumes "heap_inv k mx h"
  shows "j < length h \<Longrightarrow> rk k mx (h ! j) \<le> rk k mx (h ! 0)"
proof (induction j rule: less_induct)
  case (less j)
  show ?case
  proof (cases "j = 0")
    case True
    then show ?thesis by simp
  next
    case False
    then have p: "(j - 1) div 2 < j" using parent_less[of j] by simp
    have "rk k mx (h ! j) \<le> rk k mx (h ! ((j - 1) div 2))"
      using assms False less.prems by (simp add: heap_inv_rk)
    moreover have "rk k mx (h ! ((j - 1) div 2)) \<le> rk k mx (h ! 0)"
      using less.IH[OF p] p less.prems by simp
    ultimately show ?thesis by simp
  qed
qed

lemma extract_max_nonempty:
  assumes "heap pq \<noteq> []"
  obtains pq' where "extract_max k pq = (Inr (heap pq ! 0), pq')"
    and "is_max_heap pq' = is_max_heap pq"
    and "mset (heap pq) = add_mset (heap pq ! 0) (mset (heap pq'))"
    and "length (heap pq') = length (heap pq) - 1"
    and "heap_inv k (is_max_heap pq) (heap pq) \<Longrightarrow> heap_inv k (is_max_heap pq) (heap pq')"
proof (cases "length (heap pq) = 1")
  case True
  then obtain x where x: "heap pq = [x]" by (cases "heap pq") auto
  show ?thesis
    by (rule that[of "pq\<lparr>heap := []\<rparr>"]) (simp_all add: extract_max_def is_empty_def x heap_inv_def)
next
  case False
  with assms have len: "2 \<le> length (heap pq)" by (cases "heap pq") (auto simp: Suc_le_eq)
  define h1 where "h1 = (butlast (heap pq))[0 := last (heap pq)]"
  have l1: "0 < length h1" using len by (simp add: h1_def)
  show ?thesis
  proof (rule that[of "pq\<lparr>heap := heapify_down k (is_max_heap pq) h1 0\<rparr>"])
    show "extract_max k pq = (Inr (heap pq ! 0), pq\<lparr>heap := heapify_down k (is_max_heap pq) h1 0\<rparr>)"
      using False assms by (simp add: extract_max_def is_empty_def h1_def Let_def)
    show "mset (heap pq) = add_mset (heap pq ! 0) (mset (heap (pq\<lparr>heap := heapify_down k (is_max_heap pq) h1 0\<rparr>)))"
      using mset_replace_root[OF len] by (simp add: mset_heapify_down h1_def)
    show "length (heap (pq\<lparr>heap := heapify_down k (is_max_heap pq) h1 0\<rparr>)) = length (heap pq) - 1"
      by (simp add: length_heapify_down h1_def)
    show "heap_inv k (is_max_heap pq) (heap (pq\<lparr>heap := heapify_down k (is_max_heap pq) h1 0\<rparr>))"
      if "heap_inv k (is_max_heap pq) (heap pq)"
      using heapify_down_inv[OF l1, of k "is_max_heap pq"] heap_inv_replace_root[OF that len]
      by (simp add: h1_def)
  qed simp
qed

lemma extract_min_is_extract_max: "extract_min k pq = extract_max k pq"
  by (simp add: extract_min_def extract_max_def)

section \<open>Emptying a queue, filling a queue\<close>

text \<open>
  The callers' loop \<^verbatim>\<open>while not pq.is_empty(): pq.extract_max()\<close> (the scheduler and
  the tests; the tests of a min-heap call \<^verbatim>\<open>extract_min\<close>), collecting what is
  extracted, and their loop \<^verbatim>\<open>for item in items: pq.insert(item)\<close>. The flag
  \<open>via_min\<close> says which of the two extraction methods the loop calls.
\<close>

definition extract_top ::
    "bool \<Rightarrow> ('a \<Rightarrow> int) \<Rightarrow> 'a priority_queue \<Rightarrow> (error + 'a) \<times> 'a priority_queue" where
  "extract_top via_min k pq = (if via_min then extract_min k pq else extract_max k pq)"

lemma extract_top_nonempty:
  assumes "heap pq \<noteq> []"
  obtains pq' where "extract_top b k pq = (Inr (heap pq ! 0), pq')"
    and "is_max_heap pq' = is_max_heap pq"
    and "mset (heap pq) = add_mset (heap pq ! 0) (mset (heap pq'))"
    and "length (heap pq') = length (heap pq) - 1"
    and "heap_inv k (is_max_heap pq) (heap pq) \<Longrightarrow> heap_inv k (is_max_heap pq) (heap pq')"
proof -
  have "extract_top b k pq = extract_max k pq"
    by (simp add: extract_top_def extract_min_is_extract_max)
  then show thesis using extract_max_nonempty[OF assms, of k thesis] that by simp
qed

lemma extract_top_shrinks:
  "\<not> is_empty pq \<Longrightarrow> extract_top b k pq = (r, pq') \<Longrightarrow> length (heap pq') < length (heap pq)"
proof -
  assume a: "\<not> is_empty pq" "extract_top b k pq = (r, pq')"
  then have ne: "heap pq \<noteq> []" by (simp add: is_empty_def)
  from extract_top_nonempty[OF ne, of b k] obtain q where
    "extract_top b k pq = (Inr (heap pq ! 0), q)" "length (heap q) = length (heap pq) - 1"
    by blast
  then show ?thesis using a ne by simp
qed

function extract_all :: "bool \<Rightarrow> ('a \<Rightarrow> int) \<Rightarrow> 'a priority_queue \<Rightarrow> error + 'a list" where
  "extract_all via_min k pq =
     (if is_empty pq then Inr []
      else
        (case extract_top via_min k pq of
           (Inl e, pq') \<Rightarrow> Inl e
         | (Inr x, pq') \<Rightarrow>
             (case extract_all via_min k pq' of
                Inl e \<Rightarrow> Inl e
              | Inr xs \<Rightarrow> Inr (x # xs))))"
  by pat_completeness auto
termination
  by (relation "measure (\<lambda>(b, k, pq). length (heap pq))")
     (auto intro: extract_top_shrinks[OF _ sym])

declare extract_all.simps [simp del]

definition insert_all :: "('a \<Rightarrow> int) \<Rightarrow> 'a priority_queue \<Rightarrow> 'a list \<Rightarrow> 'a priority_queue" where
  "insert_all k pq items = foldl (insert_pq k) pq items"

lemma insert_pq_props:
  "is_max_heap (insert_pq k pq x) = is_max_heap pq"
  "mset (heap (insert_pq k pq x)) = add_mset x (mset (heap pq))"
  "length (heap (insert_pq k pq x)) = Suc (length (heap pq))"
  "heap_inv k (is_max_heap pq) (heap pq) \<Longrightarrow> heap_inv k (is_max_heap pq) (heap (insert_pq k pq x))"
  by (simp_all add: insert_pq_def Let_def mset_heapify_up length_heapify_up heap_inv_heapify_append)

lemma insert_all_props:
  "is_max_heap (insert_all k pq xs) = is_max_heap pq"
  "mset (heap (insert_all k pq xs)) = mset (heap pq) + mset xs"
  "heap_inv k (is_max_heap pq) (heap pq) \<Longrightarrow> heap_inv k (is_max_heap pq) (heap (insert_all k pq xs))"
proof -
  have "is_max_heap (insert_all k pq xs) = is_max_heap pq \<and>
        mset (heap (insert_all k pq xs)) = mset (heap pq) + mset xs \<and>
        (heap_inv k (is_max_heap pq) (heap pq) \<longrightarrow> heap_inv k (is_max_heap pq) (heap (insert_all k pq xs)))"
    unfolding insert_all_def
  proof (induction xs arbitrary: pq)
    case Nil
    show ?case by simp
  next
    case (Cons x xs)
    show ?case using Cons.IH[of "insert_pq k pq x"] by (simp add: insert_pq_props)
  qed
  then show "is_max_heap (insert_all k pq xs) = is_max_heap pq"
    "mset (heap (insert_all k pq xs)) = mset (heap pq) + mset xs"
    "heap_inv k (is_max_heap pq) (heap pq) \<Longrightarrow> heap_inv k (is_max_heap pq) (heap (insert_all k pq xs))"
    by simp_all
qed

lemma extract_all_sorted:
  assumes "heap_inv k (is_max_heap pq) (heap pq)"
  shows "\<exists>ys. extract_all b k pq = Inr ys \<and> mset ys = mset (heap pq) \<and>
           sorted_wrt (\<lambda>x y. rk k (is_max_heap pq) y \<le> rk k (is_max_heap pq) x) ys"
  using assms
proof (induction "length (heap pq)" arbitrary: pq)
  case 0
  then show ?case by (subst extract_all.simps) (simp add: is_empty_def)
next
  case (Suc n)
  then have ne: "heap pq \<noteq> []" by auto
  from extract_top_nonempty[OF ne, of b k] obtain pq' where
    e: "extract_top b k pq = (Inr (heap pq ! 0), pq')"
    and m: "is_max_heap pq' = is_max_heap pq"
    and ms: "mset (heap pq) = add_mset (heap pq ! 0) (mset (heap pq'))"
    and l: "length (heap pq') = length (heap pq) - 1"
    and i: "heap_inv k (is_max_heap pq) (heap pq) \<Longrightarrow> heap_inv k (is_max_heap pq) (heap pq')"
    by blast
  have "n = length (heap pq')" using l Suc.hyps(2) by simp
  from Suc.hyps(1)[OF this] i[OF Suc.prems] m obtain ys where
    ys: "extract_all b k pq' = Inr ys" "mset ys = mset (heap pq')"
      "sorted_wrt (\<lambda>x y. rk k (is_max_heap pq) y \<le> rk k (is_max_heap pq) x) ys"
    by auto
  have top: "rk k (is_max_heap pq) y \<le> rk k (is_max_heap pq) (heap pq ! 0)" if "y \<in> set ys" for y
  proof -
    from that have "y \<in># mset (heap pq')" using ys(2) by (metis set_mset_mset)
    then have "y \<in># mset (heap pq)" using ms by simp
    then have "y \<in> set (heap pq)" by simp
    then obtain j where "j < length (heap pq)" "heap pq ! j = y"
      unfolding in_set_conv_nth by blast
    then show ?thesis using heap_inv_root_top[OF Suc.prems, of j] by simp
  qed
  have "extract_all b k pq = Inr (heap pq ! 0 # ys)"
    using ne e ys(1) by (subst extract_all.simps) (simp add: is_empty_def)
  moreover have "mset (heap pq ! 0 # ys) = mset (heap pq)" using ys(2) ms by simp
  moreover have "sorted_wrt (\<lambda>x y. rk k (is_max_heap pq) y \<le> rk k (is_max_heap pq) x) (heap pq ! 0 # ys)"
    using ys(3) top by simp
  ultimately show ?case by blast
qed

section \<open>Extraction order of a filled queue\<close>

text \<open>
  C4: inserting any items one by one into an empty max-heap and then extracting until the
  queue is empty returns, without an exception, all of them (as many as were inserted, the
  same multiset) with non-increasing priorities; with an empty min-heap the extracted
  priorities are non-decreasing. It holds for either extraction method (\<open>via_min\<close>) and
  any key function.
\<close>

theorem extraction_order_sorted:
  "(\<exists>ys. extract_all via_min k (insert_all k (init_pq True) xs) = Inr ys \<and>
         length ys = length xs \<and> mset ys = mset xs \<and>
         sorted_wrt (\<lambda>a b. k a \<ge> k b) ys) \<and>
   (\<exists>ys. extract_all via_min k (insert_all k (init_pq False) xs) = Inr ys \<and>
         length ys = length xs \<and> mset ys = mset xs \<and>
         sorted_wrt (\<lambda>a b. k a \<le> k b) ys)"
proof -
  have fill: "heap_inv k mx (heap (insert_all k (init_pq mx) xs)) \<and>
      is_max_heap (insert_all k (init_pq mx) xs) = mx \<and>
      mset (heap (insert_all k (init_pq mx) xs)) = mset xs" for mx
    using insert_all_props[of k "init_pq mx" xs] by (simp add: init_pq_def heap_inv_def)
  have drained: "\<exists>ys. extract_all via_min k (insert_all k (init_pq mx) xs) = Inr ys \<and>
      length ys = length xs \<and> mset ys = mset xs \<and>
      sorted_wrt (\<lambda>a b. rk k mx b \<le> rk k mx a) ys" for mx
  proof -
    from fill[of mx] extract_all_sorted[of k "insert_all k (init_pq mx) xs" via_min]
    obtain ys where ys: "extract_all via_min k (insert_all k (init_pq mx) xs) = Inr ys"
      "mset ys = mset xs" "sorted_wrt (\<lambda>a b. rk k mx b \<le> rk k mx a) ys"
      by auto
    from ys(2) have "length ys = length xs" by (rule mset_eq_length)
    with ys show ?thesis by blast
  qed
  from drained[of True] drained[of False] show ?thesis
    by (simp add: rk_def)
qed


section \<open>Operations on an empty queue\<close>

text \<open>
  C7, as the claim states it, asks every extraction and peek on an empty queue to fail; at
  the freshly constructed queue \<^verbatim>\<open>peek\<close> returns \<^verbatim>\<open>None\<close> and raises nothing.
\<close>

theorem peek_empty_counterexample:
  "is_empty (init_pq True :: int priority_queue) \<and>
   fst (peek (init_pq True :: int priority_queue)) = Inr None \<and>
   fst (peek (init_pq True :: int priority_queue)) \<noteq> Inl IndexError"
  by (simp add: peek_def is_empty_def init_pq_def)

text \<open>
  C7, amended: on an empty queue (in particular a freshly constructed one)
  \<^verbatim>\<open>extract_max\<close> and \<^verbatim>\<open>extract_min\<close> raise \<^verbatim>\<open>IndexError\<close> and leave the
  queue as it was, and \<^verbatim>\<open>peek\<close> returns \<^verbatim>\<open>None\<close> without raising and leaves the queue
  as it was.
\<close>

theorem empty_queue_operations:
  assumes "is_empty pq"
  shows "extract_max k pq = (Inl IndexError, pq) \<and>
         extract_min k pq = (Inl IndexError, pq) \<and>
         peek pq = (Inr None, pq) \<and>
         extract_max k (init_pq mx) = (Inl IndexError, init_pq mx) \<and>
         extract_min k (init_pq mx) = (Inl IndexError, init_pq mx)"
  using assms by (simp add: extract_max_def extract_min_def peek_def is_empty_def init_pq_def)

theorem empty_queue_operations_witness:
  "is_empty (init_pq True :: int priority_queue) \<and>
   extract_max (\<lambda>x. x) (init_pq True :: int priority_queue) = (Inl IndexError, init_pq True) \<and>
   extract_min (\<lambda>x. x) (init_pq True :: int priority_queue) = (Inl IndexError, init_pq True) \<and>
   peek (init_pq True :: int priority_queue) = (Inr None, init_pq True)"
proof -
  have e: "is_empty (init_pq True :: int priority_queue)"
    by (simp add: is_empty_def init_pq_def)
  from empty_queue_operations[OF e, of "\<lambda>x. x" True] e show ?thesis by simp
qed

section \<open>The two extraction methods\<close>

text \<open>
  C10: \<^verbatim>\<open>extract_min\<close> and \<^verbatim>\<open>extract_max\<close> are the same function: they return the
  same item and leave the same queue. On a non-empty queue both return the root and leave a
  queue of the same mode that holds the other items (one item fewer, the multiset of the
  list without the root): the empty list when the root was alone, else the list with the
  last element moved to the root and sifted down. When the list satisfies the heap
  invariant, the root has the highest priority of the queue in a max-heap and the lowest in
  a min-heap, whichever of the two methods is called, and the list that either of them
  leaves satisfies the invariant again.
\<close>

theorem extract_min_extract_max_same:
  "extract_min k pq = extract_max k pq \<and>
   (heap pq \<noteq> [] \<longrightarrow>
      fst (extract_min k pq) = Inr (heap pq ! 0) \<and>
      fst (extract_max k pq) = Inr (heap pq ! 0) \<and>
      snd (extract_min k pq) = snd (extract_max k pq) \<and>
      is_max_heap (snd (extract_max k pq)) = is_max_heap pq \<and>
      length (heap (snd (extract_max k pq))) = length (heap pq) - 1 \<and>
      add_mset (heap pq ! 0) (mset (heap (snd (extract_max k pq)))) = mset (heap pq) \<and>
      heap (snd (extract_max k pq)) =
        (if length (heap pq) = 1 then []
         else heapify_down k (is_max_heap pq) ((butlast (heap pq))[0 := last (heap pq)]) 0)) \<and>
   (heap pq \<noteq> [] \<and> heap_inv k (is_max_heap pq) (heap pq) \<longrightarrow>
      fst (extract_min k pq) = Inr (heap pq ! 0) \<and>
      fst (extract_max k pq) = Inr (heap pq ! 0) \<and>
      (is_max_heap pq \<longrightarrow> (\<forall>y \<in> set (heap pq). k y \<le> k (heap pq ! 0))) \<and>
      (\<not> is_max_heap pq \<longrightarrow> (\<forall>y \<in> set (heap pq). k (heap pq ! 0) \<le> k y)) \<and>
      heap_inv k (is_max_heap pq) (heap (snd (extract_min k pq))) \<and>
      heap_inv k (is_max_heap pq) (heap (snd (extract_max k pq))))"
proof -
  have same: "extract_min k pq = extract_max k pq"
    by (simp add: extract_min_def extract_max_def)
  have removed:
    "fst (extract_max k pq) = Inr (heap pq ! 0)"
    "is_max_heap (snd (extract_max k pq)) = is_max_heap pq"
    "length (heap (snd (extract_max k pq))) = length (heap pq) - 1"
    "add_mset (heap pq ! 0) (mset (heap (snd (extract_max k pq)))) = mset (heap pq)"
    "heap_inv k (is_max_heap pq) (heap pq) \<Longrightarrow>
       heap_inv k (is_max_heap pq) (heap (snd (extract_max k pq)))"
    if ne: "heap pq \<noteq> []"
  proof -
    from extract_max_nonempty[OF ne, of k] obtain pq' where
      e: "extract_max k pq = (Inr (heap pq ! 0), pq')" and m: "is_max_heap pq' = is_max_heap pq"
      and ms: "mset (heap pq) = add_mset (heap pq ! 0) (mset (heap pq'))"
      and l: "length (heap pq') = length (heap pq) - 1"
      and i: "heap_inv k (is_max_heap pq) (heap pq) \<Longrightarrow> heap_inv k (is_max_heap pq) (heap pq')"
      by blast
    show "fst (extract_max k pq) = Inr (heap pq ! 0)" by (simp add: e)
    show "is_max_heap (snd (extract_max k pq)) = is_max_heap pq" by (simp add: e m)
    show "length (heap (snd (extract_max k pq))) = length (heap pq) - 1" by (simp add: e l)
    show "add_mset (heap pq ! 0) (mset (heap (snd (extract_max k pq)))) = mset (heap pq)"
      by (simp add: e ms)
    show "heap_inv k (is_max_heap pq) (heap (snd (extract_max k pq)))"
      if "heap_inv k (is_max_heap pq) (heap pq)"
      using i[OF that] by (simp add: e)
  qed
  have shape: "heap (snd (extract_max k pq)) =
        (if length (heap pq) = 1 then []
         else heapify_down k (is_max_heap pq) ((butlast (heap pq))[0 := last (heap pq)]) 0)"
    if ne: "heap pq \<noteq> []"
  proof (cases "length (heap pq) = 1")
    case True
    then obtain x where "heap pq = [x]" by (cases "heap pq") auto
    then show ?thesis by (simp add: extract_max_def is_empty_def)
  next
    case False
    then show ?thesis using ne by (simp add: extract_max_def is_empty_def Let_def)
  qed
  have top: "rk k (is_max_heap pq) y \<le> rk k (is_max_heap pq) (heap pq ! 0)"
    if "y \<in> set (heap pq)" "heap_inv k (is_max_heap pq) (heap pq)" for y
  proof -
    from that(1) obtain j where "j < length (heap pq)" "heap pq ! j = y"
      unfolding in_set_conv_nth by blast
    then show ?thesis using heap_inv_root_top[OF that(2), of j] by auto
  qed
  have first: "\<forall>y \<in> set (heap pq). k y \<le> k (heap pq ! 0)"
    if "is_max_heap pq" "heap_inv k (is_max_heap pq) (heap pq)"
    using top that by (simp add: rk_def)
  have least: "\<forall>y \<in> set (heap pq). k (heap pq ! 0) \<le> k y"
    if "\<not> is_max_heap pq" "heap_inv k (is_max_heap pq) (heap pq)"
    using top that by (simp add: rk_def)
  show ?thesis
  proof (intro conjI impI)
    show "extract_min k pq = extract_max k pq" by (rule same)
  next
    assume ne: "heap pq \<noteq> []"
    show "fst (extract_min k pq) = Inr (heap pq ! 0)" unfolding same by (rule removed(1)[OF ne])
    show "fst (extract_max k pq) = Inr (heap pq ! 0)" by (rule removed(1)[OF ne])
    show "snd (extract_min k pq) = snd (extract_max k pq)" unfolding same by (rule refl)
    show "is_max_heap (snd (extract_max k pq)) = is_max_heap pq" by (rule removed(2)[OF ne])
    show "length (heap (snd (extract_max k pq))) = length (heap pq) - 1" by (rule removed(3)[OF ne])
    show "add_mset (heap pq ! 0) (mset (heap (snd (extract_max k pq)))) = mset (heap pq)"
      by (rule removed(4)[OF ne])
    show "heap (snd (extract_max k pq)) =
        (if length (heap pq) = 1 then []
         else heapify_down k (is_max_heap pq) ((butlast (heap pq))[0 := last (heap pq)]) 0)"
      by (rule shape[OF ne])
  next
    assume a: "heap pq \<noteq> [] \<and> heap_inv k (is_max_heap pq) (heap pq)"
    then have ne: "heap pq \<noteq> []" and inv: "heap_inv k (is_max_heap pq) (heap pq)" by blast+
    show "fst (extract_min k pq) = Inr (heap pq ! 0)" unfolding same by (rule removed(1)[OF ne])
    show "fst (extract_max k pq) = Inr (heap pq ! 0)" by (rule removed(1)[OF ne])
    show "\<forall>y \<in> set (heap pq). k y \<le> k (heap pq ! 0)" if "is_max_heap pq"
      by (rule first[OF that inv])
    show "\<forall>y \<in> set (heap pq). k (heap pq ! 0) \<le> k y" if "\<not> is_max_heap pq"
      by (rule least[OF that inv])
    show "heap_inv k (is_max_heap pq) (heap (snd (extract_max k pq)))"
      by (rule removed(5)[OF ne inv])
    then show "heap_inv k (is_max_heap pq) (heap (snd (extract_min k pq)))" unfolding same .
  qed
qed

theorem extract_min_extract_max_same_witness:
  "heap \<lparr>heap = [9, 5, 7 :: int], is_max_heap = True\<rparr> \<noteq> [] \<and>
   heap_inv (\<lambda>x. x) True [9, 5, 7 :: int] \<and>
   extract_min (\<lambda>x. x) \<lparr>heap = [9, 5, 7 :: int], is_max_heap = True\<rparr> =
     (Inr 9, \<lparr>heap = [7, 5], is_max_heap = True\<rparr>) \<and>
   extract_max (\<lambda>x. x) \<lparr>heap = [9, 5, 7 :: int], is_max_heap = True\<rparr> =
     (Inr 9, \<lparr>heap = [7, 5], is_max_heap = True\<rparr>) \<and>
   heap_inv (\<lambda>x. x) True [7, 5 :: int] \<and>
   heap \<lparr>heap = [5, 9, 7 :: int], is_max_heap = False\<rparr> \<noteq> [] \<and>
   heap_inv (\<lambda>x. x) False [5, 9, 7 :: int] \<and>
   extract_max (\<lambda>x. x) \<lparr>heap = [5, 9, 7 :: int], is_max_heap = False\<rparr> =
     (Inr 5, \<lparr>heap = [7, 9], is_max_heap = False\<rparr>) \<and>
   extract_min (\<lambda>x. x) \<lparr>heap = [5, 9, 7 :: int], is_max_heap = False\<rparr> =
     (Inr 5, \<lparr>heap = [7, 9], is_max_heap = False\<rparr>) \<and>
   heap_inv (\<lambda>x. x) False [7, 9 :: int]"
proof -
  define p where "p = \<lparr>heap = [9, 5, 7 :: int], is_max_heap = True\<rparr>"
  define q where "q = \<lparr>heap = [5, 9, 7 :: int], is_max_heap = False\<rparr>"
  have h1: "heap_inv (\<lambda>x. x) (is_max_heap p) (heap p)" unfolding p_def by code_simp
  have h2: "heap_inv (\<lambda>x. x) (is_max_heap q) (heap q)" unfolding q_def by code_simp
  have n1: "heap p \<noteq> []" and n2: "heap q \<noteq> []" by (simp_all add: p_def q_def)
  have e1: "extract_max (\<lambda>x. x) p = (Inr 9, \<lparr>heap = [7, 5], is_max_heap = True\<rparr>)"
    unfolding p_def by code_simp
  have e2: "extract_max (\<lambda>x. x) q = (Inr 5, \<lparr>heap = [7, 9], is_max_heap = False\<rparr>)"
    unfolding q_def by code_simp
  from extract_min_extract_max_same[of "\<lambda>x. x" p] h1 n1 e1
  have a: "extract_min (\<lambda>x. x) p = (Inr 9, \<lparr>heap = [7, 5], is_max_heap = True\<rparr>)"
    "heap_inv (\<lambda>x. x) True [7, 5 :: int]"
    by (simp_all add: p_def)
  from extract_min_extract_max_same[of "\<lambda>x. x" q] h2 n2 e2
  have b: "extract_min (\<lambda>x. x) q = (Inr 5, \<lparr>heap = [7, 9], is_max_heap = False\<rparr>)"
    "heap_inv (\<lambda>x. x) False [7, 9 :: int]"
    by (simp_all add: q_def)
  show ?thesis using h1 h2 n1 n2 e1 e2 a b unfolding p_def q_def by simp
qed

section \<open>TaskScheduler (src/scheduler.py)\<close>

text \<open>
  The dataclasses \<^verbatim>\<open>SchedulingResult\<close> and \<^verbatim>\<open>SchedulingStatistics\<close>. The field
  \<^verbatim>\<open>task_id\<close> of a result is \<open>result_task_id\<close> and the field \<^verbatim>\<open>deadline_met\<close> of the
  statistics is \<open>deadline_met_count\<close>, since a field name is a constant and these two are
  taken. The counts are Python integers.
\<close>

record scheduling_result =
  result_task_id :: string
  start_time :: real
  completion_time :: real
  deadline_met :: bool
  wait_time :: real

record scheduling_statistics =
  total_tasks :: int
  completed_tasks :: int
  deadline_met_count :: int
  deadline_missed :: int
  total_execution_time :: real
  average_wait_time :: real
  throughput :: real

text \<open>The attributes of a \<^verbatim>\<open>TaskScheduler\<close>; its queue holds tasks, keyed by priority.\<close>

record task_scheduler =
  priority_queue :: "task priority_queue"
  current_time :: real

lemma extract_max_shrinks:
  "\<not> is_empty pq \<Longrightarrow> (r, pq') = extract_max k pq \<Longrightarrow> length (heap pq') < length (heap pq)"
  using extract_top_shrinks[of pq False k r pq'] by (simp add: extract_top_def)

text \<open>The \<^verbatim>\<open>while\<close> loop of \<^verbatim>\<open>schedule_tasks\<close>; \<open>results\<close> is the list built so far.\<close>

function execute_tasks ::
    "task_scheduler \<Rightarrow> scheduling_result list \<Rightarrow> error + scheduling_result list \<times> task_scheduler" where
  "execute_tasks self results =
     (if is_empty (priority_queue self) then Inr (results, self)
      else
        (case extract_max priority (priority_queue self) of
           (Inl e, pq') \<Rightarrow> Inl e
         | (Inr task, pq') \<Rightarrow>
             (let start = current_time self;
                  wait = start - arrival_time task;
                  completion = start + execution_time task;
                  met = (case deadline task of None \<Rightarrow> True | Some d \<Rightarrow> completion \<le> d);
                  result = \<lparr>result_task_id = task_id task, start_time = start,
                            completion_time = completion, deadline_met = met,
                            wait_time = wait\<rparr>
              in execute_tasks (self\<lparr>priority_queue := pq', current_time := completion\<rparr>)
                   (results @ [result]))))"
  by pat_completeness auto
termination
  by (relation "measure (\<lambda>(self, results). length (heap (priority_queue self)))")
     (auto intro: extract_max_shrinks)

declare execute_tasks.simps [simp del]

definition schedule_tasks ::
    "task_scheduler \<Rightarrow> task list \<Rightarrow> error + scheduling_result list \<times> task_scheduler" where
  "schedule_tasks self tasks =
     (let self1 = self\<lparr>priority_queue := init_pq True, current_time := 0\<rparr>;
          self2 = self1\<lparr>priority_queue := insert_all priority (priority_queue self1) tasks\<rparr>
      in execute_tasks self2 [])"

definition get_statistics :: "scheduling_result list \<Rightarrow> scheduling_statistics" where
  "get_statistics results =
     (if results = [] then
        \<lparr>total_tasks = 0, completed_tasks = 0, deadline_met_count = 0, deadline_missed = 0,
         total_execution_time = 0, average_wait_time = 0, throughput = 0\<rparr>
      else
        (let total = int (length results);
             completed = int (length results);
             met = sum_list (map (\<lambda>r. 1) (filter deadline_met results));
             missed = total - met;
             total_time = (if results \<noteq> [] then Max (set (map completion_time results)) else 0);
             average_wait = (if total > 0 then sum_list (map wait_time results) / real_of_int total else 0);
             rate = (if total_time > 0 then real_of_int completed / total_time else 0)
         in \<lparr>total_tasks = total, completed_tasks = completed, deadline_met_count = met,
             deadline_missed = missed, total_execution_time = total_time,
             average_wait_time = average_wait, throughput = rate\<rparr>))"

section \<open>The schedule as a timeline\<close>

text \<open>
  What the loop appends for a task taken from the queue when the clock shows \<open>now\<close>, and
  the results for a whole extraction order.
\<close>

definition result_at :: "real \<Rightarrow> task \<Rightarrow> scheduling_result" where
  "result_at now task =
     \<lparr>result_task_id = task_id task, start_time = now,
      completion_time = now + execution_time task,
      deadline_met = (case deadline task of None \<Rightarrow> True
                      | Some d \<Rightarrow> now + execution_time task \<le> d),
      wait_time = now - arrival_time task\<rparr>"

fun timeline :: "real \<Rightarrow> task list \<Rightarrow> scheduling_result list" where
  "timeline now [] = []"
| "timeline now (t # ts) = result_at now t # timeline (now + execution_time t) ts"

fun final_clock :: "real \<Rightarrow> task list \<Rightarrow> real" where
  "final_clock now [] = now"
| "final_clock now (t # ts) = final_clock (now + execution_time t) ts"

lemma length_timeline: "length (timeline now ts) = length ts"
  by (induction ts arbitrary: now) simp_all

lemma execute_tasks_timeline:
  "extract_all False priority (priority_queue self) = Inr ts \<Longrightarrow>
   \<exists>self'. execute_tasks self results = Inr (results @ timeline (current_time self) ts, self') \<and>
           current_time self' = final_clock (current_time self) ts \<and>
           is_empty (priority_queue self')"
proof (induction "length (heap (priority_queue self))" arbitrary: self results ts)
  case 0
  then have e: "is_empty (priority_queue self)" by (simp add: is_empty_def)
  with "0.prems" have "ts = []" by (subst (asm) extract_all.simps) simp
  with e show ?case by (subst execute_tasks.simps) simp
next
  case (Suc n)
  define pq where "pq = priority_queue self"
  have ne: "heap pq \<noteq> []" using Suc.hyps(2) by (auto simp: pq_def)
  from extract_top_nonempty[OF ne, of False priority] obtain pq' where
    e: "extract_max priority pq = (Inr (heap pq ! 0), pq')"
    and l: "length (heap pq') = length (heap pq) - 1"
    by (auto simp: extract_top_def)
  define x where "x = heap pq ! 0"
  from Suc.prems ne e obtain ts' where ts: "ts = x # ts'" "extract_all False priority pq' = Inr ts'"
    by (subst (asm) extract_all.simps)
       (auto simp: is_empty_def pq_def[symmetric] x_def extract_top_def split: sum.splits)
  define self1 where
    "self1 = self\<lparr>priority_queue := pq', current_time := current_time self + execution_time x\<rparr>"
  have n: "n = length (heap (priority_queue self1))"
    using l Suc.hyps(2) by (simp add: self1_def pq_def)
  have a: "extract_all False priority (priority_queue self1) = Inr ts'"
    using ts(2) by (simp add: self1_def)
  from Suc.hyps(1)[OF n a, of "results @ [result_at (current_time self) x]"] obtain self' where
    s': "execute_tasks self1 (results @ [result_at (current_time self) x]) =
           Inr ((results @ [result_at (current_time self) x]) @ timeline (current_time self1) ts', self')"
       "current_time self' = final_clock (current_time self1) ts'"
       "is_empty (priority_queue self')"
    by blast
  have "execute_tasks self results =
          execute_tasks self1 (results @ [result_at (current_time self) x])"
    using ne e
    by (subst execute_tasks.simps)
       (simp add: is_empty_def pq_def[symmetric] x_def[symmetric] Let_def self1_def result_at_def)
  then show ?case using s' ts(1) by (simp add: self1_def)
qed

lemma timeline_pointwise:
  "i < length ts \<Longrightarrow>
     result_task_id (timeline now ts ! i) = task_id (ts ! i) \<and>
     start_time (timeline now ts ! i) =
       (if i = 0 then now else completion_time (timeline now ts ! (i - 1))) \<and>
     completion_time (timeline now ts ! i) =
       start_time (timeline now ts ! i) + execution_time (ts ! i) \<and>
     wait_time (timeline now ts ! i) = start_time (timeline now ts ! i) - arrival_time (ts ! i) \<and>
     deadline_met (timeline now ts ! i) =
       (case deadline (ts ! i) of None \<Rightarrow> True
        | Some d \<Rightarrow> completion_time (timeline now ts ! i) \<le> d)"
proof (induction ts arbitrary: now i)
  case Nil
  then show ?case by simp
next
  case (Cons t ts)
  show ?case
  proof (cases i)
    case 0
    show ?thesis unfolding 0 by (simp add: result_at_def cong: option.case_cong)
  next
    case (Suc j)
    then have j: "j < length ts" using Cons.prems by simp
    from Cons.IH[OF j, of "now + execution_time t"] show ?thesis
      unfolding Suc by (cases j) (simp_all add: result_at_def cong: option.case_cong)
  qed
qed

lemma final_clock_last:
  "final_clock now ts = (if ts = [] then now else completion_time (last (timeline now ts)))"
proof (induction ts arbitrary: now)
  case Nil
  show ?case by simp
next
  case (Cons t ts)
  show ?case using Cons.IH[of "now + execution_time t"]
    by (cases ts) (simp_all add: result_at_def)
qed

lemma timeline_bounded:
  "\<forall>t \<in> set ts. 0 \<le> execution_time t \<Longrightarrow>
   now \<le> final_clock now ts \<and> (\<forall>r \<in> set (timeline now ts). completion_time r \<le> final_clock now ts)"
proof (induction ts arbitrary: now)
  case Nil
  show ?case by simp
next
  case (Cons t ts)
  from Cons.prems have t: "0 \<le> execution_time t" and ts: "\<forall>t \<in> set ts. 0 \<le> execution_time t"
    by simp_all
  from Cons.IH[OF ts, of "now + execution_time t"] t show ?case
    by (auto simp: result_at_def)
qed

lemma schedule_tasks_timeline:
  "\<exists>order self'.
     extract_all False priority (insert_all priority (init_pq True) tasks) = Inr order \<and>
     mset order = mset tasks \<and>
     sorted_wrt (\<lambda>a b. priority b \<le> priority a) order \<and>
     schedule_tasks self tasks = Inr (timeline 0 order, self') \<and>
     current_time self' = final_clock 0 order \<and>
     is_empty (priority_queue self')"
proof -
  define pq where "pq = insert_all priority (init_pq True) tasks"
  have "heap_inv priority (is_max_heap pq) (heap pq)" "is_max_heap pq" "mset (heap pq) = mset tasks"
    using insert_all_props[of priority "init_pq True" tasks]
    by (simp_all add: pq_def init_pq_def heap_inv_def)
  with extract_all_sorted[of priority pq False] obtain order where
    o: "extract_all False priority pq = Inr order" "mset order = mset tasks"
       "sorted_wrt (\<lambda>a b. priority b \<le> priority a) order"
    by (auto simp: rk_def)
  define self2 where
    "self2 = self\<lparr>priority_queue := init_pq True, current_time := 0\<rparr>\<lparr>priority_queue := pq\<rparr>"
  have s: "schedule_tasks self tasks = execute_tasks self2 []"
    unfolding schedule_tasks_def Let_def self2_def pq_def by simp
  from execute_tasks_timeline[of self2 order "[]"] o(1) obtain self' where
    "execute_tasks self2 [] = Inr (timeline 0 order, self')"
    "current_time self' = final_clock 0 order" "is_empty (priority_queue self')"
    by (auto simp: self2_def)
  with s o show ?thesis unfolding pq_def by auto
qed


text \<open>The constructor \<^verbatim>\<open>Task(task_id, priority, arrival_time, deadline, execution_time)\<close>, with the default description.\<close>

definition make_task :: "string \<Rightarrow> int \<Rightarrow> real \<Rightarrow> real option \<Rightarrow> real \<Rightarrow> task" where
  "make_task i p a d e =
     \<lparr>task_id = i, priority = p, arrival_time = a, deadline = d, execution_time = e,
      description = ''''\<rparr>"

section \<open>What the scheduler returns\<close>

text \<open>
  C5: for every task list (and whatever state the scheduler instance was in)
  \<^verbatim>\<open>schedule_tasks\<close> returns without an exception one result per task, in the order in
  which the tasks leave a max-heap filled in input order. The first task starts at clock 0
  and every later one at the completion time of the result before it (the clock never
  idles); each result has the task's id, \<open>completion_time = start_time + execution_time\<close>,
  \<open>wait_time = start_time - arrival_time\<close>, and \<open>deadline_met\<close> true without a deadline and
  otherwise exactly when \<open>completion_time \<le> deadline\<close>. The clock the scheduler is left with
  is the last completion time.
\<close>

theorem schedule_tasks_results:
  "\<exists>order rs self'.
     extract_all False priority (insert_all priority (init_pq True) tasks) = Inr order \<and>
     schedule_tasks self tasks = Inr (rs, self') \<and>
     length rs = length tasks \<and> length order = length tasks \<and> mset order = mset tasks \<and>
     current_time self' = (if rs = [] then 0 else completion_time (last rs)) \<and>
     (\<forall>i<length rs.
        result_task_id (rs ! i) = task_id (order ! i) \<and>
        start_time (rs ! i) = (if i = 0 then 0 else completion_time (rs ! (i - 1))) \<and>
        completion_time (rs ! i) = start_time (rs ! i) + execution_time (order ! i) \<and>
        wait_time (rs ! i) = start_time (rs ! i) - arrival_time (order ! i) \<and>
        deadline_met (rs ! i) =
          (case deadline (order ! i) of None \<Rightarrow> True
           | Some d \<Rightarrow> completion_time (rs ! i) \<le> d))"
proof -
  from schedule_tasks_timeline[of tasks self] obtain order self' where
    o: "extract_all False priority (insert_all priority (init_pq True) tasks) = Inr order"
       "mset order = mset tasks"
       "schedule_tasks self tasks = Inr (timeline 0 order, self')"
       "current_time self' = final_clock 0 order"
    by blast
  have len: "length order = length tasks" using o(2) by (rule mset_eq_length)
  have e: "(timeline 0 order = []) = (order = [])"
    using length_timeline[of 0 order] by (metis length_0_conv)
  have clock: "current_time self' =
      (if timeline 0 order = [] then 0 else completion_time (last (timeline 0 order)))"
    using o(4) final_clock_last[of 0 order] e by simp
  have pw: "\<forall>i<length (timeline 0 order).
        result_task_id (timeline 0 order ! i) = task_id (order ! i) \<and>
        start_time (timeline 0 order ! i) =
          (if i = 0 then 0 else completion_time (timeline 0 order ! (i - 1))) \<and>
        completion_time (timeline 0 order ! i) =
          start_time (timeline 0 order ! i) + execution_time (order ! i) \<and>
        wait_time (timeline 0 order ! i) = start_time (timeline 0 order ! i) - arrival_time (order ! i) \<and>
        deadline_met (timeline 0 order ! i) =
          (case deadline (order ! i) of None \<Rightarrow> True
           | Some d \<Rightarrow> completion_time (timeline 0 order ! i) \<le> d)"
    using timeline_pointwise[of _ order 0] by (simp add: length_timeline)
  have lr: "length (timeline 0 order) = length tasks"
    using len by (simp add: length_timeline)
  show ?thesis
    apply (rule exI[of _ order])
    apply (rule exI[of _ "timeline 0 order"])
    apply (rule exI[of _ self'])
    apply (intro conjI)
          apply (rule o(1))
         apply (rule o(3))
        apply (rule lr)
       apply (rule len)
      apply (rule o(2))
     apply (rule clock)
    apply (rule pw)
    done
qed

theorem schedule_tasks_results_witness:
  "schedule_tasks \<lparr>priority_queue = init_pq True, current_time = 0\<rparr>
     [make_task ''T1'' 10 0 None 5, make_task ''T2'' 30 0 None 3, make_task ''T3'' 20 0 (Some 6) 4] =
   Inr ([\<lparr>result_task_id = ''T2'', start_time = 0, completion_time = 3, deadline_met = True, wait_time = 0\<rparr>,
         \<lparr>result_task_id = ''T3'', start_time = 3, completion_time = 7, deadline_met = False, wait_time = 3\<rparr>,
         \<lparr>result_task_id = ''T1'', start_time = 7, completion_time = 12, deadline_met = True, wait_time = 7\<rparr>],
        \<lparr>priority_queue = \<lparr>heap = [], is_max_heap = True\<rparr>, current_time = 12\<rparr>) \<and>
   (1 :: nat) < length
       [\<lparr>result_task_id = ''T2'', start_time = 0, completion_time = 3, deadline_met = True, wait_time = 0\<rparr>,
        \<lparr>result_task_id = ''T3'', start_time = 3, completion_time = 7, deadline_met = False, wait_time = 3\<rparr>,
        \<lparr>result_task_id = ''T1'', start_time = 7, completion_time = 12, deadline_met = True, wait_time = 7\<rparr>] \<and>
   start_time \<lparr>result_task_id = ''T3'', start_time = 3, completion_time = 7, deadline_met = False, wait_time = 3\<rparr> =
     completion_time \<lparr>result_task_id = ''T2'', start_time = 0, completion_time = 3, deadline_met = True, wait_time = 0\<rparr>"
proof -
  define tasks where "tasks =
    [make_task ''T1'' 10 0 None 5, make_task ''T2'' 30 0 None 3, make_task ''T3'' 20 0 (Some 6) 4]"
  define self where "self = \<lparr>priority_queue = init_pq True :: task priority_queue, current_time = 0\<rparr>"
  define rs0 where "rs0 =
       [\<lparr>result_task_id = ''T2'', start_time = 0, completion_time = 3, deadline_met = True, wait_time = 0\<rparr>,
        \<lparr>result_task_id = ''T3'', start_time = 3, completion_time = 7, deadline_met = False, wait_time = 3\<rparr>,
        \<lparr>result_task_id = ''T1'', start_time = 7, completion_time = 12, deadline_met = True, wait_time = 7\<rparr>]"
  have ev: "schedule_tasks self tasks =
      Inr (rs0, \<lparr>priority_queue = \<lparr>heap = [], is_max_heap = True\<rparr>, current_time = 12\<rparr>)"
    unfolding self_def tasks_def rs0_def by code_simp
  from schedule_tasks_results[of tasks self] obtain rs self' where
    r: "schedule_tasks self tasks = Inr (rs, self')"
       "\<forall>i<length rs. start_time (rs ! i) = (if i = 0 then 0 else completion_time (rs ! (i - 1)))"
    by blast
  from r(1) ev have "rs = rs0" by simp
  with r(2) have "1 < length rs0 \<longrightarrow> start_time (rs0 ! 1) = completion_time (rs0 ! 0)"
    by auto
  moreover have "1 < length rs0" by (simp add: rs0_def)
  ultimately have "start_time (rs0 ! 1) = completion_time (rs0 ! 0)" by simp
  then show ?thesis using ev unfolding self_def tasks_def rs0_def by simp
qed

text \<open>
  C8: scheduling is deterministic. The results of \<^verbatim>\<open>schedule_tasks\<close> on a task list do not
  depend on the scheduler instance: two instances in any states return the same result
  sequence, and so does a second call on the instance the first call left behind. (Distinct
  priorities are not needed for this.)
\<close>

theorem schedule_tasks_deterministic:
  "\<exists>rs s1' s2' s1''.
     schedule_tasks s1 tasks = Inr (rs, s1') \<and>
     schedule_tasks s2 tasks = Inr (rs, s2') \<and>
     schedule_tasks s1' tasks = Inr (rs, s1'')"
proof -
  from schedule_tasks_timeline[of tasks s1] obtain order s1' where
    a: "extract_all False priority (insert_all priority (init_pq True) tasks) = Inr order"
       "schedule_tasks s1 tasks = Inr (timeline 0 order, s1')"
    by blast
  from schedule_tasks_timeline[of tasks s2] a(1) obtain s2' where
    b: "schedule_tasks s2 tasks = Inr (timeline 0 order, s2')"
    by auto
  from schedule_tasks_timeline[of tasks s1'] a(1) obtain s1'' where
    c: "schedule_tasks s1' tasks = Inr (timeline 0 order, s1'')"
    by auto
  from a(2) b c show ?thesis by blast
qed

section \<open>Statistics\<close>

lemma sum_list_ones: "sum_list (map (\<lambda>r. 1 :: int) xs) = int (length xs)"
  by (induction xs) simp_all

lemma get_statistics_fields:
  "total_tasks (get_statistics results) = int (length results)"
  "completed_tasks (get_statistics results) = int (length results)"
  "deadline_met_count (get_statistics results) = int (length (filter deadline_met results))"
  "deadline_missed (get_statistics results) =
     int (length results) - int (length (filter deadline_met results))"
  "total_execution_time (get_statistics results) =
     (if results = [] then 0 else Max (completion_time ` set results))"
  "average_wait_time (get_statistics results) =
     (if results = [] then 0 else sum_list (map wait_time results) / real (length results))"
  by (simp_all add: get_statistics_def Let_def sum_list_ones)

lemma get_statistics_throughput:
  "throughput (get_statistics results) =
     (if total_execution_time (get_statistics results) > 0
      then real_of_int (completed_tasks (get_statistics results)) /
             total_execution_time (get_statistics results)
      else 0)"
  by (simp add: get_statistics_def Let_def)

lemma get_statistics_empty:
  "get_statistics [] =
     \<lparr>total_tasks = 0, completed_tasks = 0, deadline_met_count = 0, deadline_missed = 0,
      total_execution_time = 0, average_wait_time = 0, throughput = 0\<rparr>"
  by (simp add: get_statistics_def)

lemma schedule_tasks_empty: "\<exists>self'. schedule_tasks self [] = Inr ([], self')"
proof -
  have "extract_all False priority (insert_all priority (init_pq True) []) = Inr ([] :: task list)"
    by (subst extract_all.simps) (simp add: insert_all_def init_pq_def is_empty_def)
  with schedule_tasks_timeline[of "[]" self] show ?thesis by auto
qed

lemma timeline_Max:
  assumes "\<forall>t \<in> set ts. 0 \<le> execution_time t" and "ts \<noteq> []"
  shows "Max (completion_time ` set (timeline now ts)) = final_clock now ts"
proof (rule Max_eqI)
  show "finite (completion_time ` set (timeline now ts))" by simp
  show "y \<le> final_clock now ts" if "y \<in> completion_time ` set (timeline now ts)" for y
    using timeline_bounded[OF assms(1), of now] that by auto
  have ne: "timeline now ts \<noteq> []" using assms(2) length_timeline[of now ts] by (metis length_0_conv)
  then have "last (timeline now ts) \<in> set (timeline now ts)" by simp
  moreover have "final_clock now ts = completion_time (last (timeline now ts))"
    using final_clock_last[of now ts] assms(2) by simp
  ultimately show "final_clock now ts \<in> completion_time ` set (timeline now ts)" by simp
qed

lemma schedule_tasks_total_time:
  assumes "\<forall>t \<in> set tasks. 0 \<le> execution_time t"
    and "schedule_tasks self tasks = Inr (rs, self')"
  shows "total_execution_time (get_statistics rs) = current_time self'"
    and "rs \<noteq> [] \<Longrightarrow> total_execution_time (get_statistics rs) = completion_time (last rs)"
proof -
  from schedule_tasks_timeline[of tasks self] assms(2) obtain order where
    o: "mset order = mset tasks" "rs = timeline 0 order" "current_time self' = final_clock 0 order"
    by auto
  have "set order = set tasks" using o(1) by (rule mset_eq_setD)
  then have pos: "\<forall>t \<in> set order. 0 \<le> execution_time t" using assms(1) by simp
  have e: "(rs = []) = (order = [])"
    using length_timeline[of 0 order] o(2) by (metis length_0_conv)
  show t: "total_execution_time (get_statistics rs) = current_time self'"
  proof (cases "order = []")
    case True
    then show ?thesis using o by (simp add: get_statistics_fields)
  next
    case False
    then show ?thesis using timeline_Max[OF pos False, of 0] o e by (simp add: get_statistics_fields)
  qed
  show "total_execution_time (get_statistics rs) = completion_time (last rs)" if "rs \<noteq> []"
    using t that e o final_clock_last[of 0 order] by simp
qed

lemma schedule_tasks_total_time_nonneg:
  assumes "\<forall>t \<in> set tasks. 0 \<le> execution_time t"
    and "schedule_tasks self tasks = Inr (rs, self')"
  shows "0 \<le> total_execution_time (get_statistics rs)"
proof -
  from schedule_tasks_timeline[of tasks self] assms(2) obtain order where
    o: "mset order = mset tasks" "current_time self' = final_clock 0 order"
    by auto
  have "set order = set tasks" using o(1) by (rule mset_eq_setD)
  then have "\<forall>t \<in> set order. 0 \<le> execution_time t" using assms(1) by simp
  from timeline_bounded[OF this, of 0] have "0 \<le> final_clock 0 order" by simp
  then show ?thesis using schedule_tasks_total_time(1)[OF assms] o(2) by simp
qed

text \<open>
  C6: \<^verbatim>\<open>get_statistics\<close> is a function of the result sequence alone. For every result
  sequence \<open>completed_tasks\<close> equals \<open>total_tasks\<close>, the number of results, \<open>deadline_met\<close>
  counts the results whose flag is set, \<open>deadline_met + deadline_missed = total_tasks\<close>, and
  \<open>average_wait_time\<close> is the mean of the wait times (0 on the empty sequence); on the empty
  sequence every field is 0, and scheduling the empty task list returns the empty sequence.
  For the result sequence that \<^verbatim>\<open>schedule_tasks\<close> returns for tasks whose execution times
  are not negative, \<open>total_tasks\<close> is the number of tasks, \<open>total_execution_time\<close> is the
  final clock, which is the completion time of the last result, and \<open>throughput\<close> is
  \<open>completed_tasks / total_execution_time\<close>, or 0 when \<open>total_execution_time\<close> is 0.
\<close>

theorem get_statistics_reduction:
  "completed_tasks (get_statistics results) = total_tasks (get_statistics results) \<and>
   total_tasks (get_statistics results) = int (length results) \<and>
   deadline_met_count (get_statistics results) = int (length (filter deadline_met results)) \<and>
   deadline_met_count (get_statistics results) + deadline_missed (get_statistics results) =
     total_tasks (get_statistics results) \<and>
   average_wait_time (get_statistics results) =
     (if results = [] then 0 else sum_list (map wait_time results) / real (length results)) \<and>
   get_statistics [] =
     \<lparr>total_tasks = 0, completed_tasks = 0, deadline_met_count = 0, deadline_missed = 0,
      total_execution_time = 0, average_wait_time = 0, throughput = 0\<rparr> \<and>
   (\<exists>s. schedule_tasks self [] = Inr ([], s)) \<and>
   ((\<forall>t \<in> set tasks. 0 \<le> execution_time t) \<and>
    schedule_tasks self tasks = Inr (results, self') \<longrightarrow>
      total_tasks (get_statistics results) = int (length tasks) \<and>
      total_execution_time (get_statistics results) = current_time self' \<and>
      (results \<noteq> [] \<longrightarrow>
         total_execution_time (get_statistics results) = completion_time (last results)) \<and>
      throughput (get_statistics results) =
        (if total_execution_time (get_statistics results) = 0 then 0
         else real_of_int (completed_tasks (get_statistics results)) /
                total_execution_time (get_statistics results)))"
proof (intro conjI impI)
  show "\<exists>s. schedule_tasks self [] = Inr ([], s)" by (rule schedule_tasks_empty)
  show "get_statistics [] =
     \<lparr>total_tasks = 0, completed_tasks = 0, deadline_met_count = 0, deadline_missed = 0,
      total_execution_time = 0, average_wait_time = 0, throughput = 0\<rparr>"
    by (rule get_statistics_empty)
next
  assume a: "(\<forall>t \<in> set tasks. 0 \<le> execution_time t) \<and>
    schedule_tasks self tasks = Inr (results, self')"
  then have pos: "\<forall>t \<in> set tasks. 0 \<le> execution_time t"
    and run: "schedule_tasks self tasks = Inr (results, self')" by blast+
  from schedule_tasks_timeline[of tasks self] run obtain order where
    "mset order = mset tasks" "results = timeline 0 order" by auto
  then have "length results = length tasks"
    using length_timeline[of 0 order] mset_eq_length[of order tasks] by simp
  then show "total_tasks (get_statistics results) = int (length tasks)"
    by (simp add: get_statistics_fields)
  show "total_execution_time (get_statistics results) = current_time self'"
    by (rule schedule_tasks_total_time(1)[OF pos run])
  show "total_execution_time (get_statistics results) = completion_time (last results)"
    if "results \<noteq> []"
    by (rule schedule_tasks_total_time(2)[OF pos run that])
  have "0 \<le> total_execution_time (get_statistics results)"
    by (rule schedule_tasks_total_time_nonneg[OF pos run])
  then show "throughput (get_statistics results) =
        (if total_execution_time (get_statistics results) = 0 then 0
         else real_of_int (completed_tasks (get_statistics results)) /
                total_execution_time (get_statistics results))"
    using get_statistics_throughput[of results] by auto
qed (simp_all add: get_statistics_fields)

theorem get_statistics_reduction_witness:
  "list_all (\<lambda>t. 0 \<le> execution_time t)
     [make_task ''T1'' 20 0 (Some 3) 5, make_task ''T2'' 10 0 (Some 100) 3] \<and>
   schedule_tasks \<lparr>priority_queue = init_pq True, current_time = 0\<rparr>
     [make_task ''T1'' 20 0 (Some 3) 5, make_task ''T2'' 10 0 (Some 100) 3] =
   Inr ([\<lparr>result_task_id = ''T1'', start_time = 0, completion_time = 5, deadline_met = False, wait_time = 0\<rparr>,
         \<lparr>result_task_id = ''T2'', start_time = 5, completion_time = 8, deadline_met = True, wait_time = 5\<rparr>],
        \<lparr>priority_queue = \<lparr>heap = [], is_max_heap = True\<rparr>, current_time = 8\<rparr>) \<and>
   get_statistics
     [\<lparr>result_task_id = ''T1'', start_time = 0, completion_time = 5, deadline_met = False, wait_time = 0\<rparr>,
      \<lparr>result_task_id = ''T2'', start_time = 5, completion_time = 8, deadline_met = True, wait_time = 5\<rparr>] =
   \<lparr>total_tasks = 2, completed_tasks = 2, deadline_met_count = 1, deadline_missed = 1,
    total_execution_time = 8, average_wait_time = 5 / 2, throughput = 1 / 4\<rparr> \<and>
   total_execution_time (get_statistics
     [\<lparr>result_task_id = ''T1'', start_time = 0, completion_time = 5, deadline_met = False, wait_time = 0\<rparr>,
      \<lparr>result_task_id = ''T2'', start_time = 5, completion_time = 8, deadline_met = True, wait_time = 5\<rparr>]) =
   completion_time (last
     [\<lparr>result_task_id = ''T1'', start_time = 0, completion_time = 5, deadline_met = False, wait_time = 0\<rparr>,
      \<lparr>result_task_id = ''T2'', start_time = 5, completion_time = 8, deadline_met = True, wait_time = 5\<rparr>]) \<and>
   total_execution_time (get_statistics
     [\<lparr>result_task_id = ''T1'', start_time = 0, completion_time = 5, deadline_met = False, wait_time = 0\<rparr>,
      \<lparr>result_task_id = ''T2'', start_time = 5, completion_time = 8, deadline_met = True, wait_time = 5\<rparr>]) =
   current_time \<lparr>priority_queue = \<lparr>heap = [] :: task list, is_max_heap = True\<rparr>, current_time = 8\<rparr>"
proof -
  define tasks where "tasks = [make_task ''T1'' 20 0 (Some 3) 5, make_task ''T2'' 10 0 (Some 100) 3]"
  define self where "self = \<lparr>priority_queue = init_pq True :: task priority_queue, current_time = 0\<rparr>"
  define rs where "rs =
     [\<lparr>result_task_id = ''T1'', start_time = 0, completion_time = 5, deadline_met = False, wait_time = 0\<rparr>,
      \<lparr>result_task_id = ''T2'', start_time = 5, completion_time = 8, deadline_met = True, wait_time = 5\<rparr>]"
  define self' where "self' = \<lparr>priority_queue = \<lparr>heap = [] :: task list, is_max_heap = True\<rparr>, current_time = 8\<rparr>"
  have pos: "\<forall>t \<in> set tasks. 0 \<le> execution_time t"
    by (simp add: tasks_def make_task_def)
  have ev: "schedule_tasks self tasks = Inr (rs, self')"
    unfolding self_def tasks_def rs_def self'_def by code_simp
  have st: "get_statistics rs =
     \<lparr>total_tasks = 2, completed_tasks = 2, deadline_met_count = 1, deadline_missed = 1,
      total_execution_time = 8, average_wait_time = 5 / 2, throughput = 1 / 4\<rparr>"
    unfolding rs_def by code_simp
  have ne: "rs \<noteq> []" by (simp add: rs_def)
  from get_statistics_reduction[of rs self tasks self'] pos ev ne
  have "total_execution_time (get_statistics rs) = current_time self'"
    "total_execution_time (get_statistics rs) = completion_time (last rs)"
    by blast+
  then show ?thesis
    using pos ev st unfolding tasks_def self_def rs_def self'_def by (simp add: list_all_iff)
qed

section \<open>Key updates on task objects\<close>

text \<open>
  \<^verbatim>\<open>increase_key\<close> and \<^verbatim>\<open>decrease_key\<close> change the priority of a task object that the
  caller and the heap list share, so here the tasks live in a store of objects and the heap
  list holds references to them. The key of a reference is the priority its object has now
  (the default \<^verbatim>\<open>key\<close> of the class applied to a \<^verbatim>\<open>Task\<close>).
\<close>

type_synonym ref = nat
type_synonym store = "ref \<Rightarrow> task"

definition task_key :: "store \<Rightarrow> ref \<Rightarrow> int" where
  "task_key st r = priority (st r)"

text \<open>
  \<^verbatim>\<open>list.index\<close>: the first position whose element is the argument itself or equal to
  it by \<^verbatim>\<open>__eq__\<close>; \<open>None\<close> is the \<^verbatim>\<open>ValueError\<close> that the callers catch.
\<close>

fun index_where :: "('a \<Rightarrow> bool) \<Rightarrow> 'a list \<Rightarrow> nat option" where
  "index_where P [] = None"
| "index_where P (x # xs) = (if P x then Some 0 else map_option Suc (index_where P xs))"

definition heap_index :: "store \<Rightarrow> ref list \<Rightarrow> ref \<Rightarrow> nat option" where
  "heap_index st h item = index_where (\<lambda>x. x = item \<or> task_eq (st x) (PTask (st item))) h"

definition increase_key ::
    "store \<Rightarrow> ref priority_queue \<Rightarrow> ref \<Rightarrow> int \<Rightarrow> bool \<times> store \<times> ref priority_queue" where
  "increase_key st pq item new_priority =
     (case heap_index st (heap pq) item of
        None \<Rightarrow> (False, st, pq)
      | Some index \<Rightarrow>
          (let st' = st(item := update_priority (st item) new_priority)
           in (True, st',
               pq\<lparr>heap := heapify_up (task_key st') (is_max_heap pq) (heap pq) index\<rparr>)))"

definition decrease_key ::
    "store \<Rightarrow> ref priority_queue \<Rightarrow> ref \<Rightarrow> int \<Rightarrow> bool \<times> store \<times> ref priority_queue" where
  "decrease_key st pq item new_priority =
     (case heap_index st (heap pq) item of
        None \<Rightarrow> (False, st, pq)
      | Some index \<Rightarrow>
          (let st' = st(item := update_priority (st item) new_priority)
           in (True, st',
               pq\<lparr>heap := heapify_down (task_key st') (is_max_heap pq) (heap pq) index\<rparr>)))"

text \<open>
  A caller's sequence of operations on one queue. An extraction that raises leaves the
  queue as it was and the sequence goes on.
\<close>

datatype op = Insert ref | ExtractMax | ExtractMin | IncreaseKey ref int | DecreaseKey ref int

fun apply_op :: "store \<times> ref priority_queue \<Rightarrow> op \<Rightarrow> store \<times> ref priority_queue" where
  "apply_op (st, pq) (Insert r) = (st, insert_pq (task_key st) pq r)"
| "apply_op (st, pq) ExtractMax = (st, snd (extract_max (task_key st) pq))"
| "apply_op (st, pq) ExtractMin = (st, snd (extract_min (task_key st) pq))"
| "apply_op (st, pq) (IncreaseKey r p) = snd (increase_key st pq r p)"
| "apply_op (st, pq) (DecreaseKey r p) = snd (decrease_key st pq r p)"

definition apply_ops :: "store \<times> ref priority_queue \<Rightarrow> op list \<Rightarrow> store \<times> ref priority_queue" where
  "apply_ops s ops = foldl apply_op s ops"

text \<open>
  The scan of a key update finds the object it was given and no other position of the list
  holds that object (or the scan finds nothing).
\<close>

definition located_self :: "store \<Rightarrow> ref list \<Rightarrow> ref \<Rightarrow> bool" where
  "located_self st h item =
     (case heap_index st h item of
        None \<Rightarrow> True
      | Some i \<Rightarrow> h ! i = item \<and> item \<notin> set (take i h) \<and> item \<notin> set (drop (Suc i) h))"

text \<open>
  The uses of the two entry points under which the invariant is kept: the scan finds the
  object itself, and the new priority is on the side the entry point sifts towards:
  \<^verbatim>\<open>increase_key\<close> sifts up (new priority not below the old one in a max-heap, not above
  it in a min-heap), \<^verbatim>\<open>decrease_key\<close> sifts down.
\<close>

fun op_admissible :: "store \<times> ref priority_queue \<Rightarrow> op \<Rightarrow> bool" where
  "op_admissible (st, pq) (IncreaseKey r p) =
     (located_self st (heap pq) r \<and>
      (if is_max_heap pq then priority (st r) \<le> p else p \<le> priority (st r)))"
| "op_admissible (st, pq) (DecreaseKey r p) =
     (located_self st (heap pq) r \<and>
      (if is_max_heap pq then p \<le> priority (st r) else priority (st r) \<le> p))"
| "op_admissible (st, pq) (Insert r) = True"
| "op_admissible (st, pq) ExtractMax = True"
| "op_admissible (st, pq) ExtractMin = True"

fun ops_admissible :: "store \<times> ref priority_queue \<Rightarrow> op list \<Rightarrow> bool" where
  "ops_admissible s [] = True"
| "ops_admissible s (x # xs) = (op_admissible s x \<and> ops_admissible (apply_op s x) xs)"

lemma index_where_Some:
  "index_where P xs = Some i \<Longrightarrow> i < length xs \<and> P (xs ! i) \<and> (\<forall>j<i. \<not> P (xs ! j))"
proof (induction xs arbitrary: i)
  case Nil
  then show ?case by simp
next
  case (Cons x xs)
  show ?case
  proof (cases "P x")
    case True
    with Cons.prems show ?thesis by simp
  next
    case False
    with Cons.prems obtain i' where i': "index_where P xs = Some i'" "i = Suc i'" by auto
    from Cons.IH[OF i'(1)] False i'(2) show ?thesis by (auto simp: less_Suc_eq_0_disj)
  qed
qed



lemma located_self_others:
  assumes "heap_index st h item = Some i" and "located_self st h item"
  shows "i < length h" and "h ! i = item" and "\<And>j. j < length h \<Longrightarrow> j \<noteq> i \<Longrightarrow> h ! j \<noteq> item"
proof -
  from assms(1) show i: "i < length h" using index_where_Some by (fastforce simp: heap_index_def)
  from assms show hi: "h ! i = item" by (simp add: located_self_def)
  from assms have t: "item \<notin> set (take i h)" and d: "item \<notin> set (drop (Suc i) h)"
    by (simp_all add: located_self_def)
  show "h ! j \<noteq> item" if j: "j < length h" "j \<noteq> i" for j
  proof (cases "j < i")
    case True
    then have "h ! j \<in> set (take i h)" using i j by (auto simp: in_set_conv_nth intro!: exI[of _ j])
    with t show ?thesis by auto
  next
    case False
    then have "h ! j = drop (Suc i) h ! (j - Suc i)" "j - Suc i < length (drop (Suc i) h)"
      using j by auto
    then have "h ! j \<in> set (drop (Suc i) h)" by (metis nth_mem)
    with d show ?thesis by auto
  qed
qed

lemma up_inv_raised:
  assumes inv: "heap_inv k mx h" and i: "i < length h"
    and same: "\<And>j. j < length h \<Longrightarrow> j \<noteq> i \<Longrightarrow> k' (h ! j) = k (h ! j)"
    and up: "rk k mx (h ! i) \<le> rk k' mx (h ! i)"
  shows "up_inv (rk k' mx) h i"
proof -
  have old: "\<And>j. 0 < j \<Longrightarrow> j < length h \<Longrightarrow> rk k mx (h ! j) \<le> rk k mx (h ! ((j - 1) div 2))"
    using inv by (simp add: heap_inv_rk)
  have eq: "\<And>j. j < length h \<Longrightarrow> j \<noteq> i \<Longrightarrow> rk k' mx (h ! j) = rk k mx (h ! j)"
    using same by (simp add: rk_def)
  have ge: "\<And>j. j < length h \<Longrightarrow> rk k mx (h ! j) \<le> rk k' mx (h ! j)"
    using eq up by (metis order_refl)
  show ?thesis unfolding up_inv_def
  proof (intro conjI allI impI)
    fix j assume j: "0 < j \<and> j < length h \<and> j \<noteq> i"
    then have p: "(j - 1) div 2 < length h" using parent_less[of j] by simp
    have "rk k' mx (h ! j) = rk k mx (h ! j)" using eq j by simp
    also have "\<dots> \<le> rk k mx (h ! ((j - 1) div 2))" using old j by simp
    also have "\<dots> \<le> rk k' mx (h ! ((j - 1) div 2))" using ge p by simp
    finally show "rk k' mx (h ! j) \<le> rk k' mx (h ! ((j - 1) div 2))" .
  next
    fix j assume j: "0 < j \<and> j < length h \<and> (j - 1) div 2 = i \<and> 0 < i"
    then have ji: "j \<noteq> i" using parent_less[of j] by auto
    have pi: "(i - 1) div 2 < length h" "(i - 1) div 2 \<noteq> i" using parent_less[of i] j i by auto
    have "rk k' mx (h ! j) = rk k mx (h ! j)" using eq j ji by simp
    also have "\<dots> \<le> rk k mx (h ! i)" using old[of j] j by simp
    also have "\<dots> \<le> rk k mx (h ! ((i - 1) div 2))" using old[of i] j i by simp
    also have "\<dots> = rk k' mx (h ! ((i - 1) div 2))" using eq pi by simp
    finally show "rk k' mx (h ! j) \<le> rk k' mx (h ! ((i - 1) div 2))" .
  qed
qed

lemma down_inv_lowered:
  assumes inv: "heap_inv k mx h" and i: "i < length h"
    and same: "\<And>j. j < length h \<Longrightarrow> j \<noteq> i \<Longrightarrow> k' (h ! j) = k (h ! j)"
    and down: "rk k' mx (h ! i) \<le> rk k mx (h ! i)"
  shows "down_inv (rk k' mx) h i"
proof -
  have old: "\<And>j. 0 < j \<Longrightarrow> j < length h \<Longrightarrow> rk k mx (h ! j) \<le> rk k mx (h ! ((j - 1) div 2))"
    using inv by (simp add: heap_inv_rk)
  have eq: "\<And>j. j < length h \<Longrightarrow> j \<noteq> i \<Longrightarrow> rk k' mx (h ! j) = rk k mx (h ! j)"
    using same by (simp add: rk_def)
  have le: "\<And>j. j < length h \<Longrightarrow> rk k' mx (h ! j) \<le> rk k mx (h ! j)"
    using eq down by (metis order_refl)
  show ?thesis unfolding down_inv_def
  proof (intro conjI allI impI)
    fix j assume j: "0 < j \<and> j < length h \<and> (j - 1) div 2 \<noteq> i"
    then have p: "(j - 1) div 2 < length h" using parent_less[of j] by simp
    have "rk k' mx (h ! j) \<le> rk k mx (h ! j)" using le j by simp
    also have "\<dots> \<le> rk k mx (h ! ((j - 1) div 2))" using old j by simp
    also have "\<dots> = rk k' mx (h ! ((j - 1) div 2))" using eq p j by simp
    finally show "rk k' mx (h ! j) \<le> rk k' mx (h ! ((j - 1) div 2))" .
  next
    fix j assume j: "0 < j \<and> j < length h \<and> (j - 1) div 2 = i \<and> 0 < i"
    then have ji: "j \<noteq> i" using parent_less[of j] by auto
    have pi: "(i - 1) div 2 < length h" "(i - 1) div 2 \<noteq> i" using parent_less[of i] j i by auto
    have "rk k' mx (h ! j) = rk k mx (h ! j)" using eq j ji by simp
    also have "\<dots> \<le> rk k mx (h ! i)" using old[of j] j by simp
    also have "\<dots> \<le> rk k mx (h ! ((i - 1) div 2))" using old[of i] j i by simp
    also have "\<dots> = rk k' mx (h ! ((i - 1) div 2))" using eq pi by simp
    finally show "rk k' mx (h ! j) \<le> rk k' mx (h ! ((i - 1) div 2))" .
  qed
qed

lemma key_update_frame:
  assumes "heap_index st h item = Some i" and "located_self st h item"
  shows "\<And>j. j < length h \<Longrightarrow> j \<noteq> i \<Longrightarrow>
           task_key (st(item := update_priority (st item) p)) (h ! j) = task_key st (h ! j)"
    and "task_key (st(item := update_priority (st item) p)) (h ! i) = p"
    and "task_key st (h ! i) = priority (st item)"
  using located_self_others[OF assms] by (simp_all add: task_key_def update_priority_def)

lemma increase_key_keeps:
  assumes inv: "heap_inv (task_key st) (is_max_heap pq) (heap pq)"
    and adm: "op_admissible (st, pq) (IncreaseKey r p)"
    and res: "increase_key st pq r p = (ok, st', pq')"
  shows "heap_inv (task_key st') (is_max_heap pq') (heap pq')"
    and "is_max_heap pq' = is_max_heap pq" and "mset (heap pq') = mset (heap pq)"
proof -
  have "heap_inv (task_key st') (is_max_heap pq') (heap pq') \<and>
        is_max_heap pq' = is_max_heap pq \<and> mset (heap pq') = mset (heap pq)"
  proof (cases "heap_index st (heap pq) r")
    case None
    with res inv show ?thesis by (auto simp: increase_key_def)
  next
    case (Some i)
    define st1 where "st1 = st(r := update_priority (st r) p)"
    from adm have loc: "located_self st (heap pq) r"
      and dir: "if is_max_heap pq then priority (st r) \<le> p else p \<le> priority (st r)"
      by simp_all
    note fr = key_update_frame(1,2)[OF Some loc, where p = p, folded st1_def]
      key_update_frame(3)[OF Some loc]
    have i: "i < length (heap pq)" using located_self_others(1)[OF Some loc] .
    have "rk (task_key st) (is_max_heap pq) (heap pq ! i) \<le> rk (task_key st1) (is_max_heap pq) (heap pq ! i)"
      using dir fr(2,3) by (simp add: rk_def split: if_splits)
    from up_inv_raised[OF inv i fr(1) this]
    have "heap_inv (task_key st1) (is_max_heap pq) (heapify_up (task_key st1) (is_max_heap pq) (heap pq) i)"
      using heapify_up_inv[OF i] by blast
    moreover from res Some have "st' = st1"
      "pq' = pq\<lparr>heap := heapify_up (task_key st1) (is_max_heap pq) (heap pq) i\<rparr>"
      by (auto simp: increase_key_def Let_def st1_def)
    ultimately show ?thesis using i by (simp add: mset_heapify_up)
  qed
  then show "heap_inv (task_key st') (is_max_heap pq') (heap pq')"
    and "is_max_heap pq' = is_max_heap pq" and "mset (heap pq') = mset (heap pq)"
    by blast+
qed

lemma decrease_key_keeps:
  assumes inv: "heap_inv (task_key st) (is_max_heap pq) (heap pq)"
    and adm: "op_admissible (st, pq) (DecreaseKey r p)"
    and res: "decrease_key st pq r p = (ok, st', pq')"
  shows "heap_inv (task_key st') (is_max_heap pq') (heap pq')"
    and "is_max_heap pq' = is_max_heap pq" and "mset (heap pq') = mset (heap pq)"
proof -
  have "heap_inv (task_key st') (is_max_heap pq') (heap pq') \<and>
        is_max_heap pq' = is_max_heap pq \<and> mset (heap pq') = mset (heap pq)"
  proof (cases "heap_index st (heap pq) r")
    case None
    with res inv show ?thesis by (auto simp: decrease_key_def)
  next
    case (Some i)
    define st1 where "st1 = st(r := update_priority (st r) p)"
    from adm have loc: "located_self st (heap pq) r"
      and dir: "if is_max_heap pq then p \<le> priority (st r) else priority (st r) \<le> p"
      by simp_all
    note fr = key_update_frame(1,2)[OF Some loc, where p = p, folded st1_def]
      key_update_frame(3)[OF Some loc]
    have i: "i < length (heap pq)" using located_self_others(1)[OF Some loc] .
    have "rk (task_key st1) (is_max_heap pq) (heap pq ! i) \<le> rk (task_key st) (is_max_heap pq) (heap pq ! i)"
      using dir fr(2,3) by (simp add: rk_def split: if_splits)
    from down_inv_lowered[OF inv i fr(1) this]
    have "heap_inv (task_key st1) (is_max_heap pq) (heapify_down (task_key st1) (is_max_heap pq) (heap pq) i)"
      using heapify_down_inv[OF i] by blast
    moreover from res Some have "st' = st1"
      "pq' = pq\<lparr>heap := heapify_down (task_key st1) (is_max_heap pq) (heap pq) i\<rparr>"
      by (auto simp: decrease_key_def Let_def st1_def)
    ultimately show ?thesis by (simp add: mset_heapify_down)
  qed
  then show "heap_inv (task_key st') (is_max_heap pq') (heap pq')"
    and "is_max_heap pq' = is_max_heap pq" and "mset (heap pq') = mset (heap pq)"
    by blast+
qed

lemma extract_max_keeps:
  assumes "heap_inv k (is_max_heap pq) (heap pq)"
  shows "heap_inv k (is_max_heap (snd (extract_max k pq))) (heap (snd (extract_max k pq)))"
    and "is_max_heap (snd (extract_max k pq)) = is_max_heap pq"
proof -
  have "heap_inv k (is_max_heap (snd (extract_max k pq))) (heap (snd (extract_max k pq))) \<and>
        is_max_heap (snd (extract_max k pq)) = is_max_heap pq"
  proof (cases "heap pq = []")
    case True
    then show ?thesis using assms by (simp add: extract_max_def is_empty_def)
  next
    case False
    from extract_max_nonempty[OF False, of k] obtain pq' where
      "extract_max k pq = (Inr (heap pq ! 0), pq')" "is_max_heap pq' = is_max_heap pq"
      "heap_inv k (is_max_heap pq) (heap pq) \<Longrightarrow> heap_inv k (is_max_heap pq) (heap pq')"
      by blast
    then show ?thesis using assms by simp
  qed
  then show "heap_inv k (is_max_heap (snd (extract_max k pq))) (heap (snd (extract_max k pq)))"
    and "is_max_heap (snd (extract_max k pq)) = is_max_heap pq"
    by blast+
qed

lemma apply_op_keeps:
  assumes "heap_inv (task_key st) (is_max_heap pq) (heap pq)"
    and "op_admissible (st, pq) x" and "apply_op (st, pq) x = (st', pq')"
  shows "heap_inv (task_key st') (is_max_heap pq') (heap pq') \<and> is_max_heap pq' = is_max_heap pq"
proof (cases x)
  case (Insert r)
  then show ?thesis using assms insert_pq_props(1,4)[of "task_key st" pq r] by auto
next
  case ExtractMax
  then show ?thesis using assms extract_max_keeps[of "task_key st" pq] by auto
next
  case ExtractMin
  then show ?thesis
    using assms extract_max_keeps[of "task_key st" pq] by (auto simp: extract_min_is_extract_max)
next
  case (IncreaseKey r p)
  with assms(3) have "increase_key st pq r p = (fst (increase_key st pq r p), st', pq')"
    by (metis apply_op.simps(4) prod.collapse)
  from increase_key_keeps(1,2)[OF assms(1) _ this] assms(2) IncreaseKey show ?thesis by simp
next
  case (DecreaseKey r p)
  with assms(3) have "decrease_key st pq r p = (fst (decrease_key st pq r p), st', pq')"
    by (metis apply_op.simps(5) prod.collapse)
  from decrease_key_keeps(1,2)[OF assms(1) _ this] assms(2) DecreaseKey show ?thesis by simp
qed

lemma apply_ops_keeps:
  "heap_inv (task_key (fst s)) (is_max_heap (snd s)) (heap (snd s)) \<Longrightarrow> ops_admissible s ops \<Longrightarrow>
   heap_inv (task_key (fst (apply_ops s ops))) (is_max_heap (snd (apply_ops s ops)))
     (heap (snd (apply_ops s ops))) \<and>
   is_max_heap (snd (apply_ops s ops)) = is_max_heap (snd s)"
proof (induction ops arbitrary: s)
  case Nil
  then show ?case by (simp add: apply_ops_def)
next
  case (Cons x xs)
  obtain st pq where s: "s = (st, pq)" by (cases s)
  obtain st1 pq1 where s1: "apply_op (st, pq) x = (st1, pq1)" by (cases "apply_op (st, pq) x")
  from Cons.prems s have a: "op_admissible (st, pq) x" "ops_admissible (st1, pq1) xs"
    by (simp_all add: s1)
  from apply_op_keeps[OF _ a(1) s1] Cons.prems(1) s
  have i1: "heap_inv (task_key st1) (is_max_heap pq1) (heap pq1)" "is_max_heap pq1 = is_max_heap pq"
    by auto
  from Cons.IH[of "(st1, pq1)"] i1 a(2) show ?case
    by (auto simp: apply_ops_def s s1)
qed

text \<open>A store whose first objects are the given tasks, at the references 0, 1, 2, ...\<close>

definition store_of :: "task list \<Rightarrow> store" where
  "store_of ts r = (if r < length ts then ts ! r else make_task [] 0 0 None 1)"

section \<open>The heap invariant under sequences of operations\<close>

text \<open>
  C1, as the claim states it, fails in two ways. \<^verbatim>\<open>increase_key\<close> only sifts up: called
  with a lower priority on the root of a max-heap (priorities 20 and 10, the 20 set to 5)
  it leaves the smaller key above the larger one. And the scan of a key update compares
  tasks by priority: with two tasks of priority 10 in the heap, raising the second one to 20
  sifts from the position of the first, and the raised task stays below it.
\<close>

theorem heap_invariant_counterexample:
  "\<not> heap_inv
       (task_key (fst (apply_ops (store_of [make_task ''A'' 20 0 None 1, make_task ''B'' 10 0 None 1],
                                  init_pq True)
                         [Insert 0, Insert 1, IncreaseKey 0 5])))
       True
       (heap (snd (apply_ops (store_of [make_task ''A'' 20 0 None 1, make_task ''B'' 10 0 None 1],
                              init_pq True)
                     [Insert 0, Insert 1, IncreaseKey 0 5]))) \<and>
   \<not> heap_inv
       (task_key (fst (apply_ops (store_of [make_task ''A'' 10 0 None 1, make_task ''B'' 10 0 None 1],
                                  init_pq True)
                         [Insert 0, Insert 1, IncreaseKey 1 20])))
       True
       (heap (snd (apply_ops (store_of [make_task ''A'' 10 0 None 1, make_task ''B'' 10 0 None 1],
                              init_pq True)
                     [Insert 0, Insert 1, IncreaseKey 1 20])))"
  by code_simp

text \<open>
  C1, amended: starting from a heap that satisfies the invariant, after any sequence of
  insert, extract_max, extract_min, increase_key and decrease_key operations the invariant
  holds again (and the mode is unchanged), provided every key update in the sequence is
  admissible where it is applied: its scan finds the given task object itself, at the only
  position that holds it, or finds nothing; and \<^verbatim>\<open>increase_key\<close> gets a new priority that
  does not rank below the old one in the heap's order, \<^verbatim>\<open>decrease_key\<close> one that does not
  rank above it.
\<close>

theorem heap_invariant_preserved:
  assumes "heap_inv (task_key st) (is_max_heap pq) (heap pq)"
    and "ops_admissible (st, pq) ops"
    and "apply_ops (st, pq) ops = (st', pq')"
  shows "heap_inv (task_key st') (is_max_heap pq') (heap pq') \<and> is_max_heap pq' = is_max_heap pq"
  using apply_ops_keeps[of "(st, pq)" ops] assms by auto

theorem heap_invariant_preserved_witness:
  "heap_inv (task_key (store_of [make_task ''A'' 10 0 None 1, make_task ''B'' 30 0 None 1,
                                 make_task ''C'' 20 0 None 1]))
     (is_max_heap (init_pq True :: ref priority_queue)) (heap (init_pq True :: ref priority_queue)) \<and>
   ops_admissible
     (store_of [make_task ''A'' 10 0 None 1, make_task ''B'' 30 0 None 1, make_task ''C'' 20 0 None 1],
      init_pq True)
     [Insert 0, Insert 1, Insert 2, IncreaseKey 0 40, DecreaseKey 1 5, ExtractMax] \<and>
   snd (apply_ops
     (store_of [make_task ''A'' 10 0 None 1, make_task ''B'' 30 0 None 1, make_task ''C'' 20 0 None 1],
      init_pq True)
     [Insert 0, Insert 1, Insert 2, IncreaseKey 0 40, DecreaseKey 1 5, ExtractMax]) =
     \<lparr>heap = [2, 1], is_max_heap = True\<rparr> \<and>
   heap_inv
     (task_key (fst (apply_ops
        (store_of [make_task ''A'' 10 0 None 1, make_task ''B'' 30 0 None 1, make_task ''C'' 20 0 None 1],
         init_pq True)
        [Insert 0, Insert 1, Insert 2, IncreaseKey 0 40, DecreaseKey 1 5, ExtractMax])))
     True [2, 1]"
proof -
  define st where "st =
    store_of [make_task ''A'' 10 0 None 1, make_task ''B'' 30 0 None 1, make_task ''C'' 20 0 None 1]"
  define ops where "ops = [Insert 0, Insert 1, Insert 2, IncreaseKey 0 40, DecreaseKey 1 5, ExtractMax]"
  define pq where "pq = (init_pq True :: ref priority_queue)"
  have h0: "heap_inv (task_key st) (is_max_heap pq) (heap pq)"
    by (simp add: pq_def init_pq_def heap_inv_def)
  have adm: "ops_admissible (st, pq) ops"
    unfolding st_def ops_def pq_def by code_simp
  have ev: "snd (apply_ops (st, pq) ops) = \<lparr>heap = [2, 1], is_max_heap = True\<rparr>"
    unfolding st_def ops_def pq_def by code_simp
  have "apply_ops (st, pq) ops = (fst (apply_ops (st, pq) ops), snd (apply_ops (st, pq) ops))"
    by simp
  from heap_invariant_preserved[OF h0 adm this] ev
  have "heap_inv (task_key (fst (apply_ops (st, pq) ops))) True [2, 1]" by simp
  then show ?thesis using h0 adm ev unfolding st_def ops_def pq_def by simp
qed

section \<open>A key update against a rebuilt heap\<close>








section \<open>What the scan of a key update finds\<close>

text \<open>
  C3 does not hold of the code. With task A (priority 10) alone in the heap,
  \<^verbatim>\<open>increase_key\<close> and \<^verbatim>\<open>decrease_key\<close> of a task B that is not in the heap but has
  priority 10 too return \<^verbatim>\<open>True\<close> and change the priority of B, where the claim (and
  the docstring, "True if the item was found and updated, False otherwise") has them fail.
  With both tasks in the heap, A first, the scan for B stops at A: B gets the new priority
  20 but the sift starts at A's position, so the heap list stays A, B with the keys 10, 20.
\<close>

theorem key_update_absent_item:
  "(1 :: ref) \<notin> set (heap \<lparr>heap = [0 :: ref], is_max_heap = True\<rparr>) \<and>
   fst (increase_key (store_of [make_task ''A'' 10 0 None 1, make_task ''B'' 10 0 None 1])
          \<lparr>heap = [0], is_max_heap = True\<rparr> 1 20) \<and>
   priority (fst (snd (increase_key (store_of [make_task ''A'' 10 0 None 1, make_task ''B'' 10 0 None 1])
          \<lparr>heap = [0], is_max_heap = True\<rparr> 1 20)) 1) = 20 \<and>
   fst (decrease_key (store_of [make_task ''A'' 10 0 None 1, make_task ''B'' 10 0 None 1])
          \<lparr>heap = [0], is_max_heap = True\<rparr> 1 5) \<and>
   priority (fst (snd (decrease_key (store_of [make_task ''A'' 10 0 None 1, make_task ''B'' 10 0 None 1])
          \<lparr>heap = [0], is_max_heap = True\<rparr> 1 5)) 1) = 5 \<and>
   heap_index (store_of [make_task ''A'' 10 0 None 1, make_task ''B'' 10 0 None 1]) [0, 1] 1 = Some 0 \<and>
   snd (snd (increase_key (store_of [make_task ''A'' 10 0 None 1, make_task ''B'' 10 0 None 1])
          \<lparr>heap = [0, 1], is_max_heap = True\<rparr> 1 20)) = \<lparr>heap = [0, 1], is_max_heap = True\<rparr> \<and>
   map (task_key (fst (snd (increase_key (store_of [make_task ''A'' 10 0 None 1, make_task ''B'' 10 0 None 1])
          \<lparr>heap = [0, 1], is_max_heap = True\<rparr> 1 20)))) [0, 1] = [10, 20]"
  by code_simp

text \<open>
  C9: \<^verbatim>\<open>Task.__eq__\<close> holds of two tasks exactly when their priorities are equal,
  whatever their other fields, and is false of a task and anything that is not a task; so
  the scan of the heap list for a task stops at the first element, whichever task it is,
  when that element has the same priority.
\<close>

theorem task_equality_by_priority:
  "task_eq a (PTask b) = (priority a = priority b) \<and>
   \<not> task_eq a (PInt n) \<and> \<not> task_eq a (PFloat x) \<and> \<not> task_eq a (PStr s) \<and> \<not> task_eq a PNone \<and>
   (priority (st y) = priority (st item) \<longrightarrow> heap_index st (y # h) item = Some 0)"
  by (simp add: heap_index_def)

theorem task_equality_by_priority_witness:
  "priority (store_of [make_task ''T1'' 10 0 None 1, make_task ''T2'' 10 5 (Some 9) 2] 0) =
   priority (store_of [make_task ''T1'' 10 0 None 1, make_task ''T2'' 10 5 (Some 9) 2] 1) \<and>
   (1 :: ref) \<in> set [0, 1] \<and>
   heap_index (store_of [make_task ''T1'' 10 0 None 1, make_task ''T2'' 10 5 (Some 9) 2]) [0, 1] 1 = Some 0 \<and>
   [0, 1 :: ref] ! 0 \<noteq> 1 \<and>
   task_id (store_of [make_task ''T1'' 10 0 None 1, make_task ''T2'' 10 5 (Some 9) 2] 0) \<noteq>
   task_id (store_of [make_task ''T1'' 10 0 None 1, make_task ''T2'' 10 5 (Some 9) 2] 1)"
proof -
  define st where "st = store_of [make_task ''T1'' 10 0 None 1, make_task ''T2'' 10 5 (Some 9) 2]"
  have p: "priority (st 0) = priority (st 1)"
    by (simp add: st_def store_of_def make_task_def)
  have d: "task_id (st 0) \<noteq> task_id (st 1)"
    by (simp add: st_def store_of_def make_task_def)
  from task_equality_by_priority[of "st 0" "st 1" 0 0 "''''" st 0 1 "[1]"] p
  have "heap_index st [0, 1] 1 = Some 0" by simp
  then show ?thesis using p d unfolding st_def by simp
qed

end
